theory Spec2Isabelle
  imports Complex_Main
begin

section \<open>Signal analyzer: the numerical core of csvProcessor\<close>

text \<open>
  A shallow embedding of the signal-processing functions of the repository's CSV processor:
  the matrix utilities, the Savitzky--Golay smoothing and derivative filters, the row loop
  of the CSV parser, the de-duplication of close roots, the intersection finder and the
  jump-edge detector.

  Numbers. A JavaScript number is an IEEE-754 double. The filters are modelled over
  \<^typ>\<open>real\<close>: arithmetic is exact, and rounding, NaN and the infinities are outside the
  model of the numerical functions. Only the parser, whose acceptance test is an
  \<open>isNaN\<close> test on what \<open>parseFloat\<close> returns, works on the type \<open>jsnum\<close>, which has
  NaN and both infinities. Division by zero, which yields an infinity or NaN in
  JavaScript and never raises, is the total division of HOL.

  Arrays are lists. The numerical functions are only ever called on arrays of numbers,
  and on rectangular matrices; the reads they make are in range there. Where the source
  can read \<open>undefined\<close> and then take a property of it, JavaScript raises a TypeError, and
  the model returns \<open>Inl TypeError\<close>.
\<close>

subsection \<open>Errors\<close>

datatype error = TypeError | MatrixDegenerate

subsection \<open>Matrix utilities\<close>

type_synonym matrix = "real list list"

text \<open>\<open>transpose\<close>: \<open>M[0].map((_, i) => M.map(row => row[i]))\<close>. For an empty \<open>M\<close>,
  \<open>M[0]\<close> is undefined and \<open>.map\<close> raises.\<close>

definition transposeM :: "matrix \<Rightarrow> error + matrix" where
  "transposeM M =
     (case M of
        [] \<Rightarrow> Inl TypeError
      | r0 # _ \<Rightarrow> Inr (map (\<lambda>i. map (\<lambda>row. row ! i) M) [0..<length r0]))"

text \<open>\<open>multiplyMatrices\<close>: the loops run over \<open>i\<close>, then \<open>k\<close>, then \<open>j\<close>, adding
  \<open>A[i][k] * B[k][j]\<close> to \<open>C[i][j]\<close>. \<open>A[0].length\<close> and \<open>B[0].length\<close> raise for an empty
  matrix, and \<open>B[k][j]\<close> raises when \<open>B\<close> has fewer rows than \<open>A\<close> has columns.\<close>

definition multiplyMatrices :: "matrix \<Rightarrow> matrix \<Rightarrow> error + matrix" where
  "multiplyMatrices A B =
     (case A of
        [] \<Rightarrow> Inl TypeError
      | a0 # _ \<Rightarrow>
          (case B of
             [] \<Rightarrow> Inl TypeError
           | b0 # _ \<Rightarrow>
               if length B < length a0 \<and> 0 < length b0 then Inl TypeError
               else Inr (map (\<lambda>i.
                      foldl (\<lambda>Ci k. map (\<lambda>j. Ci ! j + A ! i ! k * B ! k ! j) [0..<length b0])
                            (replicate (length b0) 0) [0..<length a0])
                    [0..<length A])))"

text \<open>\<open>invertMatrix\<close>: Gauss--Jordan elimination with partial pivoting on the matrix
  augmented with the identity. The four definitions below are the pivot search, the row
  swap, the division of the pivot row by the pivot and the elimination of the pivot column
  from the other rows; \<open>gaussJordanStep\<close> is one round of the outer loop.\<close>

definition pivotRow :: "matrix \<Rightarrow> nat \<Rightarrow> nat \<Rightarrow> nat" where
  "pivotRow A n i =
     foldl (\<lambda>maxRow k. if \<bar>A ! k ! i\<bar> > \<bar>A ! maxRow ! i\<bar> then k else maxRow) i [i + 1..<n]"

definition swapRows :: "matrix \<Rightarrow> nat \<Rightarrow> nat \<Rightarrow> matrix" where
  "swapRows A i maxRow = (if maxRow \<noteq> i then A[i := A ! maxRow, maxRow := A ! i] else A)"

definition scaleRow :: "matrix \<Rightarrow> nat \<Rightarrow> nat \<Rightarrow> matrix" where
  "scaleRow A n i = A[i := map (\<lambda>j. A ! i ! j / A ! i ! i) [0..<2 * n]]"

definition eliminateColumn :: "matrix \<Rightarrow> nat \<Rightarrow> nat \<Rightarrow> matrix" where
  "eliminateColumn A n i =
     foldl (\<lambda>B k. if k = i then B
                   else B[k := map (\<lambda>j. B ! k ! j - B ! k ! i * B ! i ! j) [0..<2 * n]])
           A [0..<n]"

definition gaussJordanStep :: "nat \<Rightarrow> nat \<Rightarrow> matrix \<Rightarrow> error + matrix" where
  "gaussJordanStep n i A =
     (if \<bar>A ! pivotRow A n i ! i\<bar> < 1 / 10 ^ 15 then Inl MatrixDegenerate
      else Inr (eliminateColumn (scaleRow (swapRows A i (pivotRow A n i)) n i) n i))"

function gaussJordan :: "nat \<Rightarrow> nat \<Rightarrow> matrix \<Rightarrow> error + matrix" where
  "gaussJordan n i A =
     (if i < n then
        (case gaussJordanStep n i A of
           Inl e \<Rightarrow> Inl e
         | Inr A' \<Rightarrow> gaussJordan n (i + 1) A')
      else Inr A)"
  by pat_completeness auto
termination
  by (relation "measure (\<lambda>(n, i, A). n - i)") auto

declare gaussJordan.simps [simp del]

definition augment :: "matrix \<Rightarrow> matrix" where
  "augment m =
     map (\<lambda>i. m ! i @ map (\<lambda>j. if i = j then 1 else 0) [0..<length m]) [0..<length m]"

definition invertMatrix :: "matrix \<Rightarrow> error + matrix" where
  "invertMatrix m =
     (case gaussJordan (length m) 0 (augment m) of
        Inl e \<Rightarrow> Inl e
      | Inr A \<Rightarrow> Inr (map (drop (length m)) A))"

subsection \<open>Savitzky--Golay filter\<close>

text \<open>The design matrix: one row per offset \<open>i\<close> from \<open>-half\<close> to \<open>half\<close>, one column per
  power \<open>p\<close> with \<open>0 \<le> p \<le> polyOrder\<close>, entry \<open>i ** p\<close> (so \<open>0 ** 0 = 1\<close>).\<close>

definition designMatrix :: "int \<Rightarrow> real \<Rightarrow> matrix" where
  "designMatrix half polyOrder =
     map (\<lambda>i. map (\<lambda>p. real_of_int i ^ p) [0..<nat (\<lfloor>polyOrder\<rfloor> + 1)]) [- half..half]"

text \<open>The kernel. \<open>savitzkyGolay\<close> and \<open>calculateDerivativeSG\<close> contain the same lines:
  build \<open>A\<close>, \<open>AT\<close>, \<open>ATA\<close>, invert \<open>ATA\<close> inside \<open>try\<close>, multiply by \<open>AT\<close>. The result
  \<open>Inr None\<close> stands for the \<open>catch\<close> branch being taken; the exceptions of \<open>transpose\<close>
  and \<open>multiplyMatrices\<close> are raised outside the \<open>try\<close> and escape.\<close>

definition filterKernel :: "int \<Rightarrow> real \<Rightarrow> error + matrix option" where
  "filterKernel half polyOrder =
     (case transposeM (designMatrix half polyOrder) of
        Inl e \<Rightarrow> Inl e
      | Inr AT \<Rightarrow>
          (case multiplyMatrices AT (designMatrix half polyOrder) of
             Inl e \<Rightarrow> Inl e
           | Inr ATA \<Rightarrow>
               (case invertMatrix ATA of
                  Inl e \<Rightarrow> Inr None
                | Inr invATA \<Rightarrow>
                    (case multiplyMatrices invATA AT of
                       Inl e \<Rightarrow> Inl e
                     | Inr ATAinvAT \<Rightarrow> Inr (Some ATAinvAT)))))"

text \<open>The sliding window at output index \<open>i\<close>, with the index clamped to the array.\<close>

definition windowSum :: "real list \<Rightarrow> real list \<Rightarrow> int \<Rightarrow> nat \<Rightarrow> real" where
  "windowSum data coeffs half i =
     foldl (\<lambda>acc j.
              let idx0 = int i + j;
                  idx1 = (if idx0 < 0 then 0 else idx0);
                  idx = (if idx1 \<ge> int (length data) then int (length data) - 1 else idx1)
              in acc + data ! nat idx * coeffs ! nat (j + half))
           0 [- half..half]"

text \<open>\<open>sgSmooth\<close> is the body of \<open>savitzkyGolay\<close> below the normalisation of its
  parameters, as a function of the normalised values.\<close>

definition sgSmooth :: "real list \<Rightarrow> int \<Rightarrow> real \<Rightarrow> error + real list" where
  "sgSmooth data half polyOrder =
     (case filterKernel half polyOrder of
        Inl e \<Rightarrow> Inl e
      | Inr None \<Rightarrow> Inr data
      | Inr (Some ATAinvAT) \<Rightarrow>
          (case ATAinvAT of
             [] \<Rightarrow> Inl TypeError
           | coeffs # _ \<Rightarrow> Inr (map (\<lambda>i. windowSum data coeffs half i) [0..<length data])))"

definition normWindow :: "real \<Rightarrow> int" where
  "normWindow windowSize =
     (let w = max 3 \<lfloor>windowSize\<rfloor> in if w mod 2 = 0 then w + 1 else w)"

definition normOrder :: "real \<Rightarrow> real \<Rightarrow> int" where
  "normOrder windowSize polyOrder =
     (let p = max 1 \<lfloor>polyOrder\<rfloor>
      in if p \<ge> normWindow windowSize then normWindow windowSize - 1 else p)"

definition savitzkyGolay :: "real list \<Rightarrow> real \<Rightarrow> real \<Rightarrow> error + real list" where
  "savitzkyGolay data windowSize polyOrder =
     (if data = [] then Inr []
      else sgSmooth data (normWindow windowSize div 2)
             (real_of_int (normOrder windowSize polyOrder)))"

text \<open>\<open>calculateDerivativeSG\<close> uses its parameters as they come. When the product has a
  single row, \<open>coeffsDeriv\<close> is undefined and its first read raises. The time array has the
  length of the signal at the only call site.\<close>

definition calculateDerivativeSG ::
  "real list \<Rightarrow> real list \<Rightarrow> real \<Rightarrow> real \<Rightarrow> error + real list" where
  "calculateDerivativeSG t signal windowSize polyOrder =
     (if length signal < 3 then Inr (replicate (length signal) 0)
      else
        (case filterKernel \<lfloor>windowSize / 2\<rfloor> polyOrder of
           Inl e \<Rightarrow> Inl e
         | Inr None \<Rightarrow> Inr (replicate (length signal) 0)
         | Inr (Some ATAinvAT) \<Rightarrow>
             if length ATAinvAT < 2 then Inl TypeError
             else Inr (map (\<lambda>i. windowSum signal (ATAinvAT ! 1) \<lfloor>windowSize / 2\<rfloor> i
                                  / (t ! 1 - t ! 0))
                        [0..<length signal])))"

subsection \<open>CSV parsing: the row loop of parseCSV\<close>

text \<open>Strings are lists of 8-bit characters. \<open>split\<close> with a one-character separator,
  \<open>trim\<close> (on the ASCII white space) and \<open>startsWith\<close>:\<close>

fun splitOn :: "char \<Rightarrow> string \<Rightarrow> string list" where
  "splitOn sep [] = [[]]"
| "splitOn sep (c # cs) =
     (if c = sep then [] # splitOn sep cs
      else (case splitOn sep cs of [] \<Rightarrow> [[c]] | w # ws \<Rightarrow> (c # w) # ws))"

definition isSpace :: "char \<Rightarrow> bool" where
  "isSpace c = (c \<in> set [CHR '' '', CHR 0x09, CHR 0x0A, CHR 0x0B, CHR 0x0C, CHR 0x0D])"

definition trim :: "string \<Rightarrow> string" where
  "trim s = rev (dropWhile isSpace (rev (dropWhile isSpace s)))"

definition startsWith :: "string \<Rightarrow> string \<Rightarrow> bool" where
  "startsWith s p = (take (length p) s = p)"

text \<open>What \<open>parseFloat\<close> returns: a finite number, an infinity or NaN.\<close>

datatype jsnum = Num real | PosInfinity | NegInfinity | NaN

definition isNaN :: "jsnum \<Rightarrow> bool" where
  "isNaN x = (x = NaN)"

definition isDigit :: "char \<Rightarrow> bool" where
  "isDigit c = (c \<in> set ''0123456789'')"

definition digitsValue :: "string \<Rightarrow> nat" where
  "digitsValue ds = foldl (\<lambda>acc c. 10 * acc + (of_char c - 48)) 0 ds"

text \<open>Modelled from ECMAScript (\<open>parseFloat\<close> is a built-in, not code of the
  repository): leading white space is skipped, then the longest prefix that is a decimal
  literal is read: an optional sign, then \<open>Infinity\<close>, or digits with an optional fraction
  and an optional exponent. Anything after the prefix is ignored; with no such prefix the
  result is NaN. The value is exact here (JavaScript rounds it to a double).\<close>

definition exponentPart :: "string \<Rightarrow> int" where
  "exponentPart r =
     (case r of
        [] \<Rightarrow> 0
      | c # r1 \<Rightarrow>
          if c = CHR ''e'' \<or> c = CHR ''E'' then
            (case r1 of
               [] \<Rightarrow> 0
             | s # r2 \<Rightarrow>
                 if s = CHR ''-'' then
                   (if takeWhile isDigit r2 = [] then 0
                    else - int (digitsValue (takeWhile isDigit r2)))
                 else if s = CHR ''+'' then int (digitsValue (takeWhile isDigit r2))
                 else int (digitsValue (takeWhile isDigit r1)))
          else 0)"

definition unsignedLiteral :: "string \<Rightarrow> real option" where
  "unsignedLiteral s =
     (let intDigits = takeWhile isDigit s;
          r1 = dropWhile isDigit s;
          fracDigits = (case r1 of [] \<Rightarrow> [] | c # r \<Rightarrow>
                          if c = CHR ''.'' then takeWhile isDigit r else []);
          r2 = (case r1 of [] \<Rightarrow> [] | c # r \<Rightarrow>
                          if c = CHR ''.'' then dropWhile isDigit r else r1);
          mantissa = real (digitsValue intDigits)
                     + real (digitsValue fracDigits) / 10 ^ length fracDigits;
          e = exponentPart r2
      in if intDigits = [] \<and> fracDigits = [] then None
         else Some (if e < 0 then mantissa / 10 ^ nat (- e) else mantissa * 10 ^ nat e))"

definition signedLiteral :: "bool \<Rightarrow> string \<Rightarrow> jsnum" where
  "signedLiteral negative s =
     (if startsWith s ''Infinity'' then (if negative then NegInfinity else PosInfinity)
      else (case unsignedLiteral s of
              None \<Rightarrow> NaN
            | Some v \<Rightarrow> Num (if negative then - v else v)))"

definition parseFloat :: "string \<Rightarrow> jsnum" where
  "parseFloat s =
     (case dropWhile isSpace s of
        [] \<Rightarrow> NaN
      | c # r \<Rightarrow>
          if c = CHR ''-'' then signedLiteral True r
          else if c = CHR ''+'' then signedLiteral False r
          else signedLiteral False (c # r))"

text \<open>The two arithmetic operations of the row loop, on \<open>jsnum\<close>: a product with and a
  sum with a finite constant (the three constants of the loop are positive).\<close>

fun jsTimes :: "jsnum \<Rightarrow> real \<Rightarrow> jsnum" where
  "jsTimes (Num x) c = Num (x * c)"
| "jsTimes PosInfinity c = (if c > 0 then PosInfinity else if c < 0 then NegInfinity else NaN)"
| "jsTimes NegInfinity c = (if c > 0 then NegInfinity else if c < 0 then PosInfinity else NaN)"
| "jsTimes NaN c = NaN"

fun jsPlus :: "jsnum \<Rightarrow> real \<Rightarrow> jsnum" where
  "jsPlus (Num x) c = Num (x + c)"
| "jsPlus x c = x"

text \<open>The options object; \<open>None\<close> is an absent field. \<open>options.f || d\<close> takes the default
  for an absent field and for the falsy number \<open>0\<close>.\<close>

record options =
  sgWindow :: "real option"
  sgPoly :: "real option"
  baselineN :: "real option"
  skipStart :: "real option"
  skipEnd :: "real option"
  derivativeWindowNs :: "real option"

fun orDefault :: "real option \<Rightarrow> real \<Rightarrow> real" where
  "orDefault None d = d"
| "orDefault (Some v) d = (if v = 0 then d else v)"

record trace =
  t :: "jsnum list"
  tenz :: "jsnum list"
  interf :: "jsnum list"

text \<open>The body of the loop below the row counter: the fields of a row and the three
  pushes.\<close>

definition pushRow :: "trace \<Rightarrow> string \<Rightarrow> trace" where
  "pushRow tr line =
     (let fields = splitOn CHR '','' line
      in if length fields \<ge> 5 then
           (let t0 = parseFloat (fields ! 0);
                ch1 = parseFloat (fields ! 1);
                ch3 = parseFloat (fields ! 3)
            in if \<not> isNaN t0 \<and> \<not> isNaN ch1 \<and> \<not> isNaN ch3 then
                 tr\<lparr>t := t tr @ [t0],
                    tenz := tenz tr @ [jsTimes (jsTimes ch1 0.00132) 1.25],
                    interf := interf tr @ [jsPlus ch3 0.04]\<rparr>
               else tr)
         else tr)"

text \<open>The loop over the lines, with its variables \<open>dataStarted\<close> and \<open>lineCount\<close> and
  the three arrays as arguments; \<open>continue\<close> is the recursive call on the remaining lines,
  \<open>break\<close> returns.\<close>

fun parseLines :: "real \<Rightarrow> real \<Rightarrow> string list \<Rightarrow> bool \<Rightarrow> nat \<Rightarrow> trace \<Rightarrow> trace" where
  "parseLines start end [] dataStarted lineCount tr = tr"
| "parseLines start end (l # ls) dataStarted lineCount tr =
     (if trim l = [] then parseLines start end ls dataStarted lineCount tr
      else if startsWith (trim l) ''TIME,CH1,'' then parseLines start end ls True lineCount tr
      else if \<not> dataStarted then parseLines start end ls dataStarted lineCount tr
      else if real (lineCount + 1) < start then
        parseLines start end ls dataStarted (lineCount + 1) tr
      else if real (lineCount + 1) > end then tr
      else parseLines start end ls dataStarted (lineCount + 1) (pushRow tr (trim l)))"

text \<open>\<open>parseCSVTrace\<close> is \<open>parseCSV\<close> up to the end of its row loop: the three arrays
  \<open>t\<close>, \<open>tenz\<close> and \<open>interf\<close> of the result.\<close>

definition parseCSVTrace :: "string \<Rightarrow> options \<Rightarrow> trace" where
  "parseCSVTrace csvText opts =
     parseLines (orDefault (skipStart opts) 6650) (orDefault (skipEnd opts) 27000)
       (splitOn (CHR 0x0A) csvText) False 0 \<lparr>t = [], tenz = [], interf = []\<rparr>"

subsection \<open>Filtering of close points\<close>

text \<open>The second array holds JavaScript values: \<open>None\<close> is \<open>undefined\<close>, which is what a
  read past the end of an array gives.\<close>

definition jsGet :: "'y option list \<Rightarrow> nat \<Rightarrow> 'y option" where
  "jsGet ys i = (if i < length ys then ys ! i else None)"

record 'y closePoints =
  filteredT0 :: "real list"
  filteredY0 :: "'y option list"

text \<open>One sweep: the inner loop, which keeps a point when it is at least \<open>minDistance\<close>
  after the last point kept.\<close>

definition sweep :: "real \<Rightarrow> real list \<Rightarrow> 'y option list \<Rightarrow> real list \<times> 'y option list" where
  "sweep minDistance outT outY =
     foldl (\<lambda>(newT, newY) i.
              if outT ! i - last newT \<ge> minDistance
              then (newT @ [outT ! i], newY @ [jsGet outY i])
              else (newT, newY))
           ([outT ! 0], [jsGet outY 0]) [1..<length outT]"

function filterLoop ::
  "real \<Rightarrow> nat \<Rightarrow> real list \<Rightarrow> 'y option list \<Rightarrow> real list \<times> 'y option list" where
  "filterLoop minDistance k outT outY =
     (if k < 10 then
        (if length (fst (sweep minDistance outT outY)) = length outT then (outT, outY)
         else filterLoop minDistance (k + 1)
                (fst (sweep minDistance outT outY)) (snd (sweep minDistance outT outY)))
      else (outT, outY))"
  by pat_completeness auto
termination
  by (relation "measure (\<lambda>(d, k, outT, outY). 10 - k)") auto

declare filterLoop.simps [simp del]

definition filterClosePoints :: "real list \<Rightarrow> 'y option list \<Rightarrow> real \<Rightarrow> 'y closePoints" where
  "filterClosePoints t0 y0 minDistance =
     (if length t0 \<le> 1 then \<lparr>filteredT0 = t0, filteredY0 = y0\<rparr>
      else \<lparr>filteredT0 = fst (filterLoop minDistance 0 t0 y0),
             filteredY0 = snd (filterLoop minDistance 0 t0 y0)\<rparr>)"

subsection \<open>Intersections of the two signals\<close>

record rootPoint =
  time :: real
  "value" :: real

text \<open>A read past the end of \<open>tenz\<close> or \<open>interf\<close> gives \<open>undefined\<close>, the difference is
  NaN and both comparisons are false: the pair is skipped.\<close>

definition intersectionStep ::
  "real list \<Rightarrow> real list \<Rightarrow> real list \<Rightarrow> real \<Rightarrow> rootPoint list \<Rightarrow> nat \<Rightarrow> rootPoint list" where
  "intersectionStep ts tz itf yThreshold intersections i =
     (if i < length tz \<and> i < length itf then
        (let diffPrev = tz ! (i - 1) - itf ! (i - 1);
             diffCurr = tz ! i - itf ! i
         in if (diffPrev \<le> 0 \<and> diffCurr > 0) \<or> (diffPrev \<ge> 0 \<and> diffCurr < 0) then
              (let ratio = - diffPrev / (diffCurr - diffPrev);
                   tm = ts ! (i - 1) + ratio * (ts ! i - ts ! (i - 1));
                   v = (tz ! (i - 1) + ratio * (tz ! i - tz ! (i - 1))
                        + itf ! (i - 1) + ratio * (itf ! i - itf ! (i - 1))) / 2
               in if \<bar>v\<bar> \<le> yThreshold
                  then intersections @ [\<lparr>rootPoint.time = tm, value = v\<rparr>]
                  else intersections)
            else intersections)
      else intersections)"

definition findSignalIntersectionsAtZero ::
  "real list \<Rightarrow> real list \<Rightarrow> real list \<Rightarrow> real \<Rightarrow> rootPoint list" where
  "findSignalIntersectionsAtZero ts tz itf yThreshold =
     foldl (intersectionStep ts tz itf yThreshold) [] [1..<length ts]"

subsection \<open>The largest jump\<close>

record focusHint =
  time :: real
  window :: real

fun walkBack :: "real list \<Rightarrow> real \<Rightarrow> real \<Rightarrow> nat \<Rightarrow> nat" where
  "walkBack slopes slopeSign startThreshold 0 = 0"
| "walkBack slopes slopeSign startThreshold (Suc k) =
     (if sgn (slopes ! k) \<noteq> slopeSign \<or> \<bar>slopes ! k\<bar> < startThreshold then Suc k
      else walkBack slopes slopeSign startThreshold k)"

definition findJumpByDerivative :: "real list \<Rightarrow> real list \<Rightarrow> nat option" where
  "findJumpByDerivative ts signal =
     (let slopes = map (\<lambda>i. (signal ! i - signal ! (i - 1))
                              / max (ts ! i - ts ! (i - 1)) (1 / 10 ^ 12))
                       [1..<length signal]
      in if slopes = [] then None
         else
           (let (maxSlope, maxIdx) =
                  foldl (\<lambda>(maxSlope, maxIdx) i.
                           if \<bar>slopes ! i\<bar> > \<bar>maxSlope\<bar> then (slopes ! i, i)
                           else (maxSlope, maxIdx))
                        (slopes ! 0, 0) [1..<length slopes];
                slopeSign = (if sgn maxSlope = 0 then 1 else sgn maxSlope)
            in Some (walkBack slopes slopeSign (\<bar>maxSlope\<bar> * 0.35) maxIdx)))"

fun firstAtOrBelow :: "real list \<Rightarrow> real \<Rightarrow> nat \<Rightarrow> nat option" where
  "firstAtOrBelow [] threshold i = None"
| "firstAtOrBelow (x # xs) threshold i =
     (if x \<le> threshold then Some i else firstAtOrBelow xs threshold (i + 1))"

definition hintAt :: "real list \<Rightarrow> nat \<Rightarrow> nat \<Rightarrow> focusHint" where
  "hintAt ts n startIdx =
     (let windowSamples = nat (max 20 \<lfloor>real n * 0.02\<rfloor>);
          leftIdx = nat (max 0 (int startIdx - int windowSamples));
          rightIdx = min (n - 1) (startIdx + windowSamples)
      in \<lparr>time = ts ! startIdx,
          window = (if ts ! rightIdx - ts ! leftIdx > 0 then ts ! rightIdx - ts ! leftIdx
                    else 1 / 10 ^ 6)\<rparr>)"

definition findLargestJumpStart :: "real list \<Rightarrow> real list \<Rightarrow> error + focusHint option" where
  "findLargestJumpStart ts signal =
     (if length ts < 3 \<or> length ts \<noteq> length signal then Inr None
      else
        (case savitzkyGolay signal 11 2 of
           Inl e \<Rightarrow> Inl e
         | Inr smoothSignal \<Rightarrow>
             (let headCount = nat (max 20 \<lfloor>real (length smoothSignal) * 0.05\<rfloor>);
                  baseline = foldl (+) 0 (take headCount smoothSignal) / real headCount;
                  minVal = foldl min baseline smoothSignal;
                  amplitude = baseline - minVal;
                  startIdx =
                    (case (if amplitude > 0
                           then firstAtOrBelow smoothSignal (baseline - amplitude * 0.15) 0
                           else None) of
                       None \<Rightarrow> findJumpByDerivative ts smoothSignal
                     | Some i \<Rightarrow> Some i)
              in case startIdx of
                   None \<Rightarrow> Inr None
                 | Some i \<Rightarrow> Inr (Some (hintAt ts (length signal) i)))))"

subsection \<open>Notions used in the statements and proofs\<close>

text \<open>A list of times is separated by \<open>d\<close> when each point is at least \<open>d\<close> after the one
  before it. \<open>sweepStep\<close> is the body of the inner loop of \<open>filterClosePoints\<close> and
  \<open>sweepUpTo\<close> its state when the loop index has reached \<open>m\<close>.\<close>

definition separated :: "real \<Rightarrow> real list \<Rightarrow> bool" where
  "separated d xs = (\<forall>i. Suc i < length xs \<longrightarrow> xs ! Suc i - xs ! i \<ge> d)"

definition sweepStep ::
  "real \<Rightarrow> real list \<Rightarrow> 'y option list \<Rightarrow> real list \<times> 'y option list \<Rightarrow> nat
   \<Rightarrow> real list \<times> 'y option list" where
  "sweepStep d outT outY = (\<lambda>(newT, newY) i.
              if outT ! i - last newT \<ge> d
              then (newT @ [outT ! i], newY @ [jsGet outY i])
              else (newT, newY))"

definition sweepUpTo ::
  "real \<Rightarrow> real list \<Rightarrow> 'y option list \<Rightarrow> nat \<Rightarrow> real list \<times> 'y option list" where
  "sweepUpTo d outT outY m =
     foldl (sweepStep d outT outY) ([outT ! 0], [jsGet outY 0]) [1..<m]"


subsection \<open>The intersection finder as the specification words it\<close>

text \<open>A pair of adjacent samples brackets a crossing when the difference of the two series
  changes sign across it; the crossing lies at the fraction \<open>ratio\<close> of the way from the
  first sample of the pair to the second, and everything is interpolated linearly there.
  The amplitude is the midpoint of the two interpolated series values.\<close>

definition specInterpolate :: "real list \<Rightarrow> nat \<Rightarrow> real \<Rightarrow> real" where
  "specInterpolate xs i ratio = xs ! (i - 1) + ratio * (xs ! i - xs ! (i - 1))"

definition specSignChange :: "real list \<Rightarrow> real list \<Rightarrow> nat \<Rightarrow> bool" where
  "specSignChange tz itf i =
     ((tz ! (i - 1) - itf ! (i - 1) \<le> 0 \<and> tz ! i - itf ! i > 0) \<or>
      (tz ! (i - 1) - itf ! (i - 1) \<ge> 0 \<and> tz ! i - itf ! i < 0))"

definition specRatio :: "real list \<Rightarrow> real list \<Rightarrow> nat \<Rightarrow> real" where
  "specRatio tz itf i =
     - (tz ! (i - 1) - itf ! (i - 1))
       / ((tz ! i - itf ! i) - (tz ! (i - 1) - itf ! (i - 1)))"

definition specCrossing :: "real list \<Rightarrow> real list \<Rightarrow> real list \<Rightarrow> nat \<Rightarrow> rootPoint" where
  "specCrossing ts tz itf i =
     \<lparr>rootPoint.time = specInterpolate ts i (specRatio tz itf i),
      value = (specInterpolate tz i (specRatio tz itf i)
               + specInterpolate itf i (specRatio tz itf i)) / 2\<rparr>"

subsection \<open>The row window and the row test as the specification words them\<close>

text \<open>The data rows of a text are its trimmed, non-empty lines after the first header
  line, further header lines left out; they are counted from 1, and the rows retained are
  those whose count lies between the two bounds.\<close>

definition isHeader :: "string \<Rightarrow> bool" where
  "isHeader line = startsWith line ''TIME,CH1,''"

definition specDataRows :: "string \<Rightarrow> string list" where
  "specDataRows csvText =
     filter (\<lambda>l. l \<noteq> [] \<and> \<not> isHeader l)
       (dropWhile (\<lambda>l. \<not> isHeader l) (map trim (splitOn (CHR 0x0A) csvText)))"

definition specRetained :: "real \<Rightarrow> real \<Rightarrow> string list \<Rightarrow> string list" where
  "specRetained start end rows =
     map snd (filter (\<lambda>(c, row). start \<le> real c \<and> real c \<le> end)
                (zip [1..<Suc (length rows)] rows))"

text \<open>A row is accepted when it has at least five fields and \<open>parseFloat\<close> gives a number
  other than NaN for the fields 0, 1 and 3.\<close>

definition field :: "string \<Rightarrow> nat \<Rightarrow> jsnum" where
  "field row k = parseFloat (splitOn CHR '','' row ! k)"

definition specAccepted :: "string \<Rightarrow> bool" where
  "specAccepted row =
     (length (splitOn CHR '','' row) \<ge> 5 \<and>
      field row 0 \<noteq> NaN \<and> field row 1 \<noteq> NaN \<and> field row 3 \<noteq> NaN)"

definition isFinite :: "jsnum \<Rightarrow> bool" where
  "isFinite x = (case x of Num v \<Rightarrow> True | _ \<Rightarrow> False)"

definition emptyTrace :: trace where
  "emptyTrace = \<lparr>t = [], tenz = [], interf = []\<rparr>"

text \<open>The rows retained when the count has already reached \<open>c\<close> (for the proofs).\<close>

definition retainedFrom :: "nat \<Rightarrow> real \<Rightarrow> real \<Rightarrow> string list \<Rightarrow> string list" where
  "retainedFrom c start end rows =
     map snd (filter (\<lambda>(c, row). start \<le> real c \<and> real c \<le> end)
                (zip [Suc c..<Suc (c + length rows)] rows))"

text \<open>A configuration with both row bounds set, and a text with a header and one row,
  for the examples.\<close>

definition exampleOptions :: "real \<Rightarrow> real \<Rightarrow> options" where
  "exampleOptions start end =
     \<lparr>sgWindow = None, sgPoly = None, baselineN = None,
      skipStart = Some start, skipEnd = Some end, derivativeWindowNs = None\<rparr>"

definition exampleCsv :: "string \<Rightarrow> string" where
  "exampleCsv row = ''TIME,CH1,CH2,CH3,CH4'' @ [CHR 0x0A] @ row @ [CHR 0x0A]"

subsection \<open>Notions used in the proofs about the matrix utilities\<close>

text \<open>A matrix is rectangular with \<open>r\<close> rows and \<open>c\<close> columns.\<close>

definition rect :: "nat \<Rightarrow> nat \<Rightarrow> matrix \<Rightarrow> bool" where
  "rect r c M = (length M = r \<and> (\<forall>row\<in>set M. length row = c))"

text \<open>The invariant of the Gauss--Jordan loop on the augmented matrix \<open>A\<close> of an
  \<open>n \<times> n\<close> matrix \<open>m\<close>: in every row the right half, multiplied by \<open>m\<close>, gives the left
  half; and the columns already processed are columns of the identity.\<close>

definition rowRel :: "nat \<Rightarrow> matrix \<Rightarrow> real list \<Rightarrow> bool" where
  "rowRel n m r = (\<forall>c<n. (\<Sum>k<n. r ! (n + k) * m ! k ! c) = r ! c)"

definition colsDone :: "nat \<Rightarrow> nat \<Rightarrow> matrix \<Rightarrow> bool" where
  "colsDone n i A = (\<forall>c<i. \<forall>k<n. A ! k ! c = (if k = c then 1 else 0))"

definition gjInv :: "nat \<Rightarrow> matrix \<Rightarrow> nat \<Rightarrow> matrix \<Rightarrow> bool" where
  "gjInv n m i A = (rect n (2 * n) A \<and> (\<forall>k<n. rowRel n m (A ! k)) \<and> colsDone n i A)"

definition elimRow :: "matrix \<Rightarrow> nat \<Rightarrow> nat \<Rightarrow> nat \<Rightarrow> real list" where
  "elimRow A n i k = map (\<lambda>j. A ! k ! j - A ! k ! i * A ! i ! j) [0..<2 * n]"

subsection \<open>The degenerate case of the kernel\<close>

text \<open>The normal-equations matrix is built without an exception and its inversion raises
  \<open>Matrix degenerate\<close>: a pivot of magnitude below \<open>1e-15\<close> was found.\<close>

definition kernelDegenerate :: "int \<Rightarrow> real \<Rightarrow> bool" where
  "kernelDegenerate half polyOrder =
     (case transposeM (designMatrix half polyOrder) of
        Inl e \<Rightarrow> False
      | Inr AT \<Rightarrow>
          (case multiplyMatrices AT (designMatrix half polyOrder) of
             Inl e \<Rightarrow> False
           | Inr ATA \<Rightarrow> invertMatrix ATA = Inl MatrixDegenerate))"

subsection \<open>The step trace of the end-to-end scenario\<close>

text \<open>A trace of 10000 samples: the signal is 0 below index 5000, falls linearly over
  the 20 samples from index 5000 (value 0) to index 5020 (value -1) and stays at -1; the
  times are \<open>t0 + i * dt\<close>.\<close>

definition stepSignal :: "real list" where
  "stepSignal = replicate 5000 0 @ map (\<lambda>k. - real k / 20) [0..<20] @ replicate 4980 (- 1)"

definition stepTime :: "real \<Rightarrow> real \<Rightarrow> real list" where
  "stepTime t0 dt = map (\<lambda>i. t0 + real i * dt) [0..<10000]"

text \<open>The smoothing coefficients for window size 11 and order 2, and the index read by
  the sliding window (for the proofs).\<close>

definition sgCoeffs11 :: "real list" where
  "sgCoeffs11 = [- 12 / 143, 3 / 143, 4 / 39, 23 / 143, 28 / 143, 89 / 429,
                 28 / 143, 23 / 143, 4 / 39, 3 / 143, - 12 / 143]"

definition clampIndex :: "nat \<Rightarrow> nat \<Rightarrow> int \<Rightarrow> nat" where
  "clampIndex n i j =
     nat (if (if int i + j < 0 then 0 else int i + j) \<ge> int n then int n - 1
          else (if int i + j < 0 then 0 else int i + j))"

text \<open>The smoothed step signal: flat at 0, the 29 values around the ramp whose windows
  see one of its two corners or the ramp, and flat at -1.\<close>

definition stepSmooth :: "real list" where
  "stepSmooth =
     replicate 4996 0 @
       [3 / 715, 21 / 2860, 23 / 4290, - 2 / 429, - 7 / 286, - 469 / 8580, - 203 / 2145, - 102 / 715,
        - 28 / 143, - 1 / 4, - 3 / 10, - 7 / 20, - 2 / 5, - 9 / 20, - 1 / 2, - 11 / 20,
        - 3 / 5, - 13 / 20, - 7 / 10, - 3 / 4, - 115 / 143, - 613 / 715, - 1942 / 2145, - 8111 / 8580,
        - 279 / 286, - 427 / 429, - 4313 / 4290, - 2881 / 2860, - 718 / 715] @
     replicate 4975 (- 1)"

section \<open>Properties\<close>

subsection \<open>Filtering of close points\<close>

lemma separated_snoc:
  assumes "xs \<noteq> []"
  shows "separated d (xs @ [x]) = (separated d xs \<and> x - last xs \<ge> d)"
proof
  assume a: "separated d (xs @ [x])"
  have "separated d xs"
    unfolding separated_def
  proof (intro allI impI)
    fix i assume "Suc i < length xs"
    then show "d \<le> xs ! Suc i - xs ! i"
      using a [unfolded separated_def, rule_format, of i] by (simp add: nth_append)
  qed
  moreover have "x - last xs \<ge> d"
    using a [unfolded separated_def, rule_format, of "length xs - 1"] assms
    by (simp add: nth_append last_conv_nth)
  ultimately show "separated d xs \<and> x - last xs \<ge> d" by simp
next
  assume a: "separated d xs \<and> x - last xs \<ge> d"
  show "separated d (xs @ [x])"
    unfolding separated_def
  proof (intro allI impI)
    fix i assume b: "Suc i < length (xs @ [x])"
    show "d \<le> (xs @ [x]) ! Suc i - (xs @ [x]) ! i"
    proof (cases "Suc i < length xs")
      case True
      then show ?thesis using a [unfolded separated_def] by (simp add: nth_append)
    next
      case False
      then have "Suc i = length xs" using b by simp
      then have "i = length xs - 1" "\<not> Suc i < length xs" "i < length xs" by simp_all
      then show ?thesis using a assms by (simp add: nth_append last_conv_nth)
    qed
  qed
qed


lemma sweep_alt: "sweep d outT outY = sweepUpTo d outT outY (length outT)"
  by (simp add: sweep_def sweepStep_def sweepUpTo_def)

lemma sweepUpTo_1: "sweepUpTo d outT outY (Suc 0) = ([outT ! 0], [jsGet outY 0])"
  by (simp add: sweepUpTo_def)

lemma sweepUpTo_Suc:
  "1 \<le> m \<Longrightarrow> sweepUpTo d outT outY (Suc m) = sweepStep d outT outY (sweepUpTo d outT outY m) m"
  by (simp add: sweepUpTo_def)

lemma sweep_prefix_inv:
  assumes "1 \<le> m" "m \<le> length outT"
  shows "fst (sweepUpTo d outT outY m) \<noteq> [] \<and>
         separated d (fst (sweepUpTo d outT outY m)) \<and>
         length (fst (sweepUpTo d outT outY m)) \<le> m \<and>
         (length (fst (sweepUpTo d outT outY m)) = m
            \<longrightarrow> fst (sweepUpTo d outT outY m) = take m outT)"
  using assms
proof (induction m rule: dec_induct)
  case base
  then have "outT \<noteq> []" by auto
  then have "take (Suc 0) outT = [outT ! 0]"
    by (cases outT) simp_all
  then show ?case by (simp add: separated_def sweepUpTo_1)
next
  case (step m)
  obtain nT nY where s: "sweepUpTo d outT outY m = (nT, nY)"
    by (cases "sweepUpTo d outT outY m")
  from step s have ih: "nT \<noteq> []" "separated d nT" "length nT \<le> m"
    "length nT = m \<longrightarrow> nT = take m outT" by auto
  have m: "m < length outT" using step.prems by simp
  have upt: "sweepUpTo d outT outY (Suc m) = sweepStep d outT outY (nT, nY) m"
    using step.hyps s by (simp add: sweepUpTo_Suc)
  show ?case
  proof (cases "outT ! m - last nT \<ge> d")
    case True
    then have r: "sweepUpTo d outT outY (Suc m) = (nT @ [outT ! m], nY @ [jsGet outY m])"
      by (simp add: upt sweepStep_def)
    have "separated d (nT @ [outT ! m])"
      using ih True by (simp add: separated_snoc)
    moreover have "length (nT @ [outT ! m]) = Suc m \<longrightarrow> nT @ [outT ! m] = take (Suc m) outT"
      using ih m by (auto simp: take_Suc_conv_app_nth)
    ultimately show ?thesis using ih by (simp add: r)
  next
    case False
    then have r: "sweepUpTo d outT outY (Suc m) = (nT, nY)"
      by (simp add: upt sweepStep_def)
    show ?thesis using ih by (simp add: r)
  qed
qed

lemma sweep_separated:
  assumes "outT \<noteq> []"
  shows "fst (sweep d outT outY) \<noteq> []" "separated d (fst (sweep d outT outY))"
    "length (fst (sweep d outT outY)) = length outT \<Longrightarrow> fst (sweep d outT outY) = outT"
  using sweep_prefix_inv [of "length outT" outT d outY] assms
  by (simp_all add: sweep_alt Suc_leI)

lemma sweep_keeps_separated_prefix:
  assumes "separated d outT" "1 \<le> m" "m \<le> length outT"
  shows "fst (sweepUpTo d outT outY m) = take m outT"
  using assms(2,3)
proof (induction m rule: dec_induct)
  case base
  then have "outT \<noteq> []" by auto
  then show ?case by (cases outT) (simp_all add: sweepUpTo_1)
next
  case (step m)
  obtain nT nY where s: "sweepUpTo d outT outY m = (nT, nY)"
    by (cases "sweepUpTo d outT outY m")
  from step s have ih: "nT = take m outT" by auto
  have m: "m < length outT" "0 < m" using step by simp_all
  have "take m outT \<noteq> []" using m by auto
  then have "last nT = outT ! (m - 1)"
    using m by (simp add: ih last_conv_nth)
  moreover have "outT ! Suc (m - 1) - outT ! (m - 1) \<ge> d"
    using assms(1) [unfolded separated_def, rule_format, of "m - 1"] m by simp
  ultimately have ge: "outT ! m - last nT \<ge> d" using m by simp
  have upt: "sweepUpTo d outT outY (Suc m) = sweepStep d outT outY (nT, nY) m"
    using step.hyps s by (simp add: sweepUpTo_Suc)
  show ?case
    using m ge by (simp add: upt sweepStep_def ih take_Suc_conv_app_nth)
qed

lemma sweep_keeps_separated:
  assumes "separated d outT" "outT \<noteq> []"
  shows "length (fst (sweep d outT outY)) = length outT"
  using sweep_keeps_separated_prefix [OF assms(1), of "length outT" outY] assms(2)
  by (simp add: sweep_alt Suc_leI)

lemma filterLoop_two_sweeps:
  assumes "outT \<noteq> []" "k < 9"
  shows "filterLoop d k outT outY =
           (if length (fst (sweep d outT outY)) = length outT then (outT, outY)
            else sweep d outT outY)"
proof (cases "length (fst (sweep d outT outY)) = length outT")
  case True
  then show ?thesis using assms by (subst filterLoop.simps) simp
next
  case False
  have ne: "fst (sweep d outT outY) \<noteq> []" and sep: "separated d (fst (sweep d outT outY))"
    using sweep_separated [OF assms(1)] by blast+
  have "length (fst (sweep d (fst (sweep d outT outY)) (snd (sweep d outT outY))))
        = length (fst (sweep d outT outY))"
    using sweep_keeps_separated [OF sep ne] .
  then have "filterLoop d (k + 1) (fst (sweep d outT outY)) (snd (sweep d outT outY))
             = sweep d outT outY"
    using assms by (subst filterLoop.simps) simp
  then show ?thesis using False assms by (subst filterLoop.simps) simp
qed


lemma filterClosePoints_example:
  "filterClosePoints [0, 50 / 10 ^ 9, 120 / 10 ^ 9, 130 / 10 ^ 9]
     [Some (0::real), Some 0, Some 0, Some 0] (100 / 10 ^ 9)
   = \<lparr>filteredT0 = [0, 120 / 10 ^ 9], filteredY0 = [Some 0, Some 0]\<rparr>"
  by code_simp

text \<open>
  C7. For every list of roots and every minimum distance, consecutive points of the
  output of \<open>filterClosePoints\<close> are at least the minimum distance apart; the pass applied
  to its own output returns it unchanged; and the loop leaves through its \<open>break\<close> in the
  first or the second round, well inside the cap of 10: the result is the input when the
  first sweep drops nothing, and the first sweep otherwise.
\<close>

theorem filterClosePoints_separated_idempotent:
  "(\<forall>i. Suc i < length (filteredT0 (filterClosePoints t0 y0 d)) \<longrightarrow>
        filteredT0 (filterClosePoints t0 y0 d) ! Suc i
          - filteredT0 (filterClosePoints t0 y0 d) ! i \<ge> d) \<and>
   filterClosePoints (filteredT0 (filterClosePoints t0 y0 d))
                     (filteredY0 (filterClosePoints t0 y0 d)) d
     = filterClosePoints t0 y0 d \<and>
   filterClosePoints t0 y0 d =
     (if length t0 \<le> 1 \<or> length (fst (sweep d t0 y0)) = length t0
      then \<lparr>filteredT0 = t0, filteredY0 = y0\<rparr>
      else \<lparr>filteredT0 = fst (sweep d t0 y0), filteredY0 = snd (sweep d t0 y0)\<rparr>)"
proof -
  let ?r = "filterClosePoints t0 y0 d"
  have closed: "\<And>(t0::real list) (y0::'a option list). filterClosePoints t0 y0 d =
     (if length t0 \<le> 1 \<or> length (fst (sweep d t0 y0)) = length t0
      then \<lparr>filteredT0 = t0, filteredY0 = y0\<rparr>
      else \<lparr>filteredT0 = fst (sweep d t0 y0), filteredY0 = snd (sweep d t0 y0)\<rparr>)"
  proof -
    fix t0 :: "real list" and y0 :: "'a option list"
    show "filterClosePoints t0 y0 d =
     (if length t0 \<le> 1 \<or> length (fst (sweep d t0 y0)) = length t0
      then \<lparr>filteredT0 = t0, filteredY0 = y0\<rparr>
      else \<lparr>filteredT0 = fst (sweep d t0 y0), filteredY0 = snd (sweep d t0 y0)\<rparr>)"
    proof (cases "length t0 \<le> 1")
      case True
      then show ?thesis by (simp add: filterClosePoints_def)
    next
      case False
      then have "t0 \<noteq> []" by auto
      then show ?thesis
        using False by (simp add: filterClosePoints_def filterLoop_two_sweeps)
    qed
  qed
  have sep: "separated d (filteredT0 ?r)"
  proof (cases "length t0 \<le> 1")
    case True
    then show ?thesis by (simp add: closed separated_def)
  next
    case False
    then have ne: "t0 \<noteq> []" by auto
    show ?thesis
    proof (cases "length (fst (sweep d t0 y0)) = length t0")
      case True
      then have "fst (sweep d t0 y0) = t0" using sweep_separated(3) [OF ne] by blast
      then have "separated d t0" using sweep_separated(2) [OF ne, of d y0] by simp
      then show ?thesis using True by (simp add: closed)
    next
      case F2: False
      then show ?thesis using False sweep_separated(2) [OF ne, of d y0] by (simp add: closed)
    qed
  qed
  have idem: "filterClosePoints (filteredT0 ?r) (filteredY0 ?r) d = ?r"
  proof (cases "length (filteredT0 ?r) \<le> 1")
    case True
    then show ?thesis by (subst closed) simp
  next
    case False
    then have "filteredT0 ?r \<noteq> []" by auto
    then have "length (fst (sweep d (filteredT0 ?r) (filteredY0 ?r))) = length (filteredT0 ?r)"
      using sweep_keeps_separated [OF sep] by blast
    then show ?thesis by (subst closed) simp
  qed
  show ?thesis
    using sep idem closed [of t0 y0] unfolding separated_def by blast
qed


theorem filterClosePoints_separated_idempotent_witness:
  "Suc 0 < length (filteredT0 (filterClosePoints [0, 50 / 10 ^ 9, 120 / 10 ^ 9, 130 / 10 ^ 9]
                     [Some (0::real), Some 0, Some 0, Some 0] (100 / 10 ^ 9))) \<and>
   filteredT0 (filterClosePoints [0, 50 / 10 ^ 9, 120 / 10 ^ 9, 130 / 10 ^ 9]
                 [Some (0::real), Some 0, Some 0, Some 0] (100 / 10 ^ 9)) ! Suc 0
     - filteredT0 (filterClosePoints [0, 50 / 10 ^ 9, 120 / 10 ^ 9, 130 / 10 ^ 9]
                 [Some (0::real), Some 0, Some 0, Some 0] (100 / 10 ^ 9)) ! 0
     \<ge> 100 / 10 ^ 9"
  using filterClosePoints_separated_idempotent
          [of "[0, 50 / 10 ^ 9, 120 / 10 ^ 9, 130 / 10 ^ 9]"
              "[Some (0::real), Some 0, Some 0, Some 0]" "100 / 10 ^ 9",
           THEN conjunct1, THEN spec, of 0]
  unfolding filterClosePoints_example by simp

subsection \<open>The largest jump\<close>

text \<open>
  C10. When the time and signal arrays have different lengths, or fewer than three
  elements, \<open>findLargestJumpStart\<close> returns null: no hint, and no exception.
\<close>

theorem jump_start_rejects_malformed:
  "length ts \<noteq> length signal \<or> length ts < 3 \<or> length signal < 3 \<Longrightarrow>
   findLargestJumpStart ts signal = Inr None"
  by (auto simp: findLargestJumpStart_def)

theorem jump_start_rejects_malformed_witness:
  "findLargestJumpStart [0, 1, 2, 3] [0, 1] = Inr None \<and>
   findLargestJumpStart [0, 1] [5, 6] = Inr None"
  using jump_start_rejects_malformed [of "[0, 1, 2, 3]" "[0, 1]"]
        jump_start_rejects_malformed [of "[0, 1]" "[5, 6]"]
  by simp

subsection \<open>Intersections of the two signals\<close>

lemma specCrossing_unfold:
  "specCrossing ts tz itf i =
     \<lparr>rootPoint.time =
        ts ! (i - 1)
        + - (tz ! (i - 1) - itf ! (i - 1)) / (tz ! i - itf ! i - (tz ! (i - 1) - itf ! (i - 1)))
          * (ts ! i - ts ! (i - 1)),
      value =
        (tz ! (i - 1)
         + - (tz ! (i - 1) - itf ! (i - 1)) / (tz ! i - itf ! i - (tz ! (i - 1) - itf ! (i - 1)))
           * (tz ! i - tz ! (i - 1))
         + itf ! (i - 1)
         + - (tz ! (i - 1) - itf ! (i - 1)) / (tz ! i - itf ! i - (tz ! (i - 1) - itf ! (i - 1)))
           * (itf ! i - itf ! (i - 1))) / 2\<rparr>"
  unfolding specCrossing_def specRatio_def specInterpolate_def
  by (simp only: add.assoc)

lemma intersectionStep_spec:
  assumes "i < length tz" "i < length itf"
  shows "intersectionStep ts tz itf thr acc i =
           acc @ map (specCrossing ts tz itf)
                   (filter (\<lambda>i. specSignChange tz itf i \<and>
                                 \<bar>value (specCrossing ts tz itf i)\<bar> \<le> thr) [i])"
proof -
  have step: "intersectionStep ts tz itf thr acc i =
      (if specSignChange tz itf i then
         (if \<bar>value (specCrossing ts tz itf i)\<bar> \<le> thr then acc @ [specCrossing ts tz itf i]
          else acc)
       else acc)"
    unfolding specCrossing_unfold intersectionStep_def Let_def specSignChange_def
    using assms by (simp only: rootPoint.select_convs simp_thms if_True)
  show ?thesis
    unfolding step
    by (cases "specSignChange tz itf i"; cases "\<bar>value (specCrossing ts tz itf i)\<bar> \<le> thr")
       simp_all
qed
lemma foldl_intersectionStep:
  assumes "\<forall>i\<in>set is. i < length tz \<and> i < length itf"
  shows "foldl (intersectionStep ts tz itf thr) acc is =
           acc @ map (specCrossing ts tz itf)
                   (filter (\<lambda>i. specSignChange tz itf i \<and>
                                 \<bar>value (specCrossing ts tz itf i)\<bar> \<le> thr) is)"
  using assms
proof (induction "is" arbitrary: acc)
  case Nil
  then show ?case by simp
next
  case (Cons i "is")
  then have "i < length tz" "i < length itf" by simp_all
  from intersectionStep_spec [OF this, of ts thr acc] Cons show ?case by simp
qed

text \<open>
  C6. For time, strain and interferometer arrays of one length, the points reported by
  \<open>findSignalIntersectionsAtZero\<close> are, in order, the crossings of exactly the adjacent
  pairs \<open>(i - 1, i)\<close> whose difference changes sign (\<open>diffPrev \<le> 0\<close> and \<open>diffCurr > 0\<close>, or
  \<open>diffPrev \<ge> 0\<close> and \<open>diffCurr < 0\<close>) and whose amplitude is at most the threshold in
  magnitude; each point carries the interpolated time and the midpoint amplitude. At a
  sign change the denominator \<open>diffCurr - diffPrev\<close> is never zero.
\<close>

theorem intersections_are_sign_changes:
  assumes "length tz = length ts" "length itf = length ts"
  shows "findSignalIntersectionsAtZero ts tz itf yThreshold =
           map (specCrossing ts tz itf)
             (filter (\<lambda>i. specSignChange tz itf i \<and>
                           \<bar>value (specCrossing ts tz itf i)\<bar> \<le> yThreshold)
                [1..<length ts]) \<and>
         (\<forall>i. specSignChange tz itf i \<longrightarrow>
              (tz ! i - itf ! i) - (tz ! (i - 1) - itf ! (i - 1)) \<noteq> 0)"
proof
  have "\<forall>i\<in>set [1..<length ts]. i < length tz \<and> i < length itf"
    using assms by simp
  from foldl_intersectionStep [OF this, of ts yThreshold "[]"]
  show "findSignalIntersectionsAtZero ts tz itf yThreshold =
           map (specCrossing ts tz itf)
             (filter (\<lambda>i. specSignChange tz itf i \<and>
                           \<bar>value (specCrossing ts tz itf i)\<bar> \<le> yThreshold)
                [1..<length ts])"
    by (simp add: findSignalIntersectionsAtZero_def)
next
  show "\<forall>i. specSignChange tz itf i \<longrightarrow>
              (tz ! i - itf ! i) - (tz ! (i - 1) - itf ! (i - 1)) \<noteq> 0"
    unfolding specSignChange_def by auto
qed

lemma intersections_example:
  "findSignalIntersectionsAtZero [0, 1, 2] [- 0.01, 0.01, 0.01] [0, 0, 0] 0.02
    = [\<lparr>rootPoint.time = 1 / 2, value = 0\<rparr>]"
  by code_simp

theorem intersections_are_sign_changes_witness:
  "length [- 0.01, 0.01, 0.01 :: real] = length [0, 1, 2 :: real] \<and>
   length [0, 0, 0 :: real] = length [0, 1, 2 :: real] \<and>
   specSignChange [- 0.01, 0.01, 0.01] [0, 0, 0] 1 \<and>
   [\<lparr>rootPoint.time = 1 / 2, value = 0\<rparr>] =
     map (specCrossing [0, 1, 2] [- 0.01, 0.01, 0.01] [0, 0, 0])
       (filter (\<lambda>i. specSignChange [- 0.01, 0.01, 0.01] [0, 0, 0] i \<and>
                     \<bar>value (specCrossing [0, 1, 2] [- 0.01, 0.01, 0.01] [0, 0, 0] i)\<bar> \<le> 0.02)
          [1..<length [0, 1, 2 :: real]]) \<and>
   ([- 0.01, 0.01, 0.01] ! 1 - [0, 0, 0] ! 1)
     - ([- 0.01, 0.01, 0.01] ! (1 - 1) - [0, 0, 0] ! (1 - 1)) \<noteq> (0::real)"
proof -
  have l: "length [- 0.01, 0.01, 0.01 :: real] = length [0, 1, 2 :: real]"
    "length [0, 0, 0 :: real] = length [0, 1, 2 :: real]" by simp_all
  have sc: "specSignChange [- 0.01, 0.01, 0.01] [0, 0, 0] 1"
    by (simp add: specSignChange_def)
  from intersections_are_sign_changes [OF l, of "0.02"] sc l show ?thesis
    unfolding intersections_example by blast
qed

subsection \<open>CSV parsing\<close>

lemma retainedFrom_Nil: "retainedFrom c s e [] = []"
  by (simp add: retainedFrom_def)

lemma retainedFrom_Cons:
  "retainedFrom c s e (r # rs) =
     (if s \<le> real (Suc c) \<and> real (Suc c) \<le> e then [r] else []) @ retainedFrom (Suc c) s e rs"
proof -
  have "[Suc c..<Suc (c + length (r # rs))]
        = Suc c # [Suc (Suc c)..<Suc (Suc c + length rs)]"
    using upt_conv_Cons [of "Suc c" "Suc (Suc c + length rs)"] by simp
  then show ?thesis unfolding retainedFrom_def by simp
qed

lemma retainedFrom_past_end:
  "real (Suc c) > e \<Longrightarrow> retainedFrom c s e rows = []"
proof (induction rows arbitrary: c)
  case Nil
  then show ?case by (simp add: retainedFrom_Nil)
next
  case (Cons r rs)
  have "real (Suc (Suc c)) > e" using Cons.prems by simp
  then have "retainedFrom (Suc c) s e rs = []" by (rule Cons.IH)
  then show ?case using Cons.prems by (simp add: retainedFrom_Cons)
qed

lemma specRetained_from: "specRetained s e rows = retainedFrom 0 s e rows"
  by (simp add: specRetained_def retainedFrom_def)

lemma parseLines_started:
  "parseLines s e ls True c tr =
     foldl pushRow tr
       (retainedFrom c s e (filter (\<lambda>l. l \<noteq> [] \<and> \<not> isHeader l) (map trim ls)))"
proof (induction ls arbitrary: c tr)
  case Nil
  then show ?case by (simp add: retainedFrom_Nil)
next
  case (Cons l ls)
  show ?case
  proof (cases "trim l = [] \<or> isHeader (trim l)")
    case True
    then show ?thesis using Cons.IH [of c tr] by (auto simp: isHeader_def)
  next
    case False
    then have row: "trim l \<noteq> []" "\<not> startsWith (trim l) ''TIME,CH1,''"
      "\<not> isHeader (trim l)"
      by (simp_all add: isHeader_def)
    have f: "filter (\<lambda>l. l \<noteq> [] \<and> \<not> isHeader l) (map trim (l # ls))
             = trim l # filter (\<lambda>l. l \<noteq> [] \<and> \<not> isHeader l) (map trim ls)"
      using False by simp
    show ?thesis
    proof (cases "real (c + 1) < s")
      case True
      then show ?thesis
        using row Cons.IH [of "c + 1" tr] by (simp add: f retainedFrom_Cons)
    next
      case low: False
      show ?thesis
      proof (cases "real (c + 1) > e")
        case True
        then have "real (Suc c) > e" by simp
        from retainedFrom_past_end [OF this] show ?thesis
          using row low True by simp
      next
        case False
        then show ?thesis
          using row low Cons.IH [of "c + 1" "pushRow tr (trim l)"]
          by (simp add: f retainedFrom_Cons)
      qed
    qed
  qed
qed

lemma parseLines_not_started:
  "parseLines s e ls False 0 tr =
     foldl pushRow tr
       (retainedFrom 0 s e
          (filter (\<lambda>l. l \<noteq> [] \<and> \<not> isHeader l)
             (dropWhile (\<lambda>l. \<not> isHeader l) (map trim ls))))"
proof (induction ls)
  case Nil
  then show ?case by (simp add: retainedFrom_Nil)
next
  case (Cons l ls)
  show ?case
  proof (cases "isHeader (trim l)")
    case True
    then have ne: "trim l \<noteq> []" by (auto simp: isHeader_def startsWith_def)
    show ?thesis
      using True ne parseLines_started [of s e ls 0 tr] by (simp add: isHeader_def)
  next
    case False
    then show ?thesis using Cons.IH by (simp add: isHeader_def)
  qed
qed

lemma parseCSVTrace_retained:
  "parseCSVTrace csvText opts =
     foldl pushRow emptyTrace
       (specRetained (orDefault (skipStart opts) 6650) (orDefault (skipEnd opts) 27000)
          (specDataRows csvText))"
  by (simp add: parseCSVTrace_def parseLines_not_started specRetained_from specDataRows_def
      emptyTrace_def)


lemma specRetained_start_1: "specRetained 1 e rows = specRetained 0 e rows"
proof -
  have "filter (\<lambda>(c, row). 1 \<le> real c \<and> real c \<le> e) (zip [1..<Suc (length rows)] rows)
        = filter (\<lambda>(c, row). 0 \<le> real c \<and> real c \<le> e) (zip [1..<Suc (length rows)] rows)"
  proof (rule filter_cong [OF refl])
    fix x assume "x \<in> set (zip [1..<Suc (length rows)] rows)"
    then have "fst x \<in> set [1..<Suc (length rows)]"
      using set_zip_leftD [of "fst x" "snd x" "[1..<Suc (length rows)]" rows] by simp
    then have "1 \<le> fst x" by auto
    then show "(case x of (c, row) \<Rightarrow> 1 \<le> real c \<and> real c \<le> e)
               = (case x of (c, row) \<Rightarrow> 0 \<le> real c \<and> real c \<le> e)"
      by (cases x) simp
  qed
  then show ?thesis by (simp add: specRetained_def)
qed


lemma pf1: "parseFloat ''1'' = Num 1" "parseFloat ''2'' = Num 2" "parseFloat ''4'' = Num 4"
  "parseFloat ''Infinity'' = PosInfinity"
  by (simp_all add: parseFloat_def signedLiteral_def unsignedLiteral_def exponentPart_def
      isDigit_def isSpace_def digitsValue_def startsWith_def Let_def)

lemma split_row: "splitOn CHR '','' ''1,2,3,4,5'' = [''1'', ''2'', ''3'', ''4'', ''5'']"
  by simp

lemma split_row_inf:
  "splitOn CHR '','' ''Infinity,1,0,2,0'' = [''Infinity'', ''1'', ''0'', ''2'', ''0'']"
  by simp

lemma push_row: "pushRow tr ''1,2,3,4,5'' =
   tr\<lparr>t := t tr @ [Num 1], tenz := tenz tr @ [Num (2 * 0.00132 * 1.25)],
      interf := interf tr @ [Num (4 + 0.04)]\<rparr>"
  unfolding pushRow_def split_row Let_def by (simp add: pf1 isNaN_def)

lemma lines_example:
  "map trim (splitOn (CHR 0x0A) (exampleCsv ''1,2,3,4,5'')) = [''TIME,CH1,CH2,CH3,CH4'', ''1,2,3,4,5'', []]"
  by (simp add: exampleCsv_def trim_def isSpace_def)

lemma rows_example: "specDataRows (exampleCsv ''1,2,3,4,5'') = [''1,2,3,4,5'']"
  unfolding specDataRows_def lines_example by (simp add: isHeader_def startsWith_def)

lemma parse_zero_start:
  "parseCSVTrace (exampleCsv ''1,2,3,4,5'') (exampleOptions 0 10000) = emptyTrace"
  by (simp add: parseCSVTrace_def exampleOptions_def exampleCsv_def trim_def isSpace_def
      startsWith_def emptyTrace_def)

lemma spec_zero_start:
  "t (foldl pushRow emptyTrace
        (specRetained 0 10000 (specDataRows (exampleCsv ''1,2,3,4,5'')))) = [Num 1]"
proof -
  have "specRetained 0 10000 [''1,2,3,4,5''] = [''1,2,3,4,5'']"
    by (simp add: specRetained_def)
  then show ?thesis
    by (simp only: rows_example) (simp add: push_row emptyTrace_def)
qed

text \<open>
  C5, as claimed: the rows with a count below the configured start are discarded, so a
  configured start of 0 discards nothing. It fails: with \<open>skipStart = 0\<close> and one data
  row the parser returns an empty trace, where the claim keeps the row.
\<close>

theorem skipStart_zero_counterexample:
  "t (parseCSVTrace (exampleCsv ''1,2,3,4,5'') (exampleOptions 0 10000)) = [] \<and>
   t (foldl pushRow emptyTrace
        (specRetained 0 10000 (specDataRows (exampleCsv ''1,2,3,4,5'')))) = [Num 1]"
proof
  show "t (parseCSVTrace (exampleCsv ''1,2,3,4,5'') (exampleOptions 0 10000)) = []"
    by (simp add: parse_zero_start emptyTrace_def)
  show "t (foldl pushRow emptyTrace
        (specRetained 0 10000 (specDataRows (exampleCsv ''1,2,3,4,5'')))) = [Num 1]"
    by (rule spec_zero_start)
qed

text \<open>
  C5, amended. A configured bound that is absent or 0 stands for its default (6650 for
  the start, 27000 for the end). With the bounds so read, the trace is built from exactly
  the data rows whose 1-based count is at least the start and at most the end, in order:
  rows below the start are discarded and the loop stops at the first row above the end.
  A configured start of 1 discards no leading row.
\<close>

theorem parseCSVTrace_window:
  "parseCSVTrace csvText opts =
     foldl pushRow emptyTrace
       (specRetained
          (case skipStart opts of None \<Rightarrow> 6650 | Some s \<Rightarrow> if s = 0 then 6650 else s)
          (case skipEnd opts of None \<Rightarrow> 27000 | Some e \<Rightarrow> if e = 0 then 27000 else e)
          (specDataRows csvText)) \<and>
   (skipStart opts = Some 1 \<longrightarrow>
      parseCSVTrace csvText opts =
        foldl pushRow emptyTrace
          (specRetained 0
             (case skipEnd opts of None \<Rightarrow> 27000 | Some e \<Rightarrow> if e = 0 then 27000 else e)
             (specDataRows csvText)))"
proof -
  have s: "orDefault (skipStart opts) 6650
           = (case skipStart opts of None \<Rightarrow> 6650 | Some s \<Rightarrow> if s = 0 then 6650 else s)"
    by (cases "skipStart opts") simp_all
  have e: "orDefault (skipEnd opts) 27000
           = (case skipEnd opts of None \<Rightarrow> 27000 | Some e \<Rightarrow> if e = 0 then 27000 else e)"
    by (cases "skipEnd opts") simp_all
  show ?thesis
    using parseCSVTrace_retained [of csvText opts] specRetained_start_1
    unfolding s e by (cases "skipStart opts") auto
qed

lemma parse_one_start:
  "t (parseCSVTrace (exampleCsv ''1,2,3,4,5'') (exampleOptions 1 10000)) = [Num 1]"
  by (simp add: parseCSVTrace_def exampleOptions_def exampleCsv_def trim_def isSpace_def
      startsWith_def push_row)

theorem parseCSVTrace_window_witness:
  "skipStart (exampleOptions 1 10000) = Some 1 \<and>
   [Num 1] =
     t (foldl pushRow emptyTrace
          (specRetained 0
             (case skipEnd (exampleOptions 1 10000) of
                None \<Rightarrow> 27000 | Some e \<Rightarrow> if e = 0 then 27000 else e)
             (specDataRows (exampleCsv ''1,2,3,4,5''))))"
proof -
  have h: "skipStart (exampleOptions 1 10000) = Some 1"
    by (simp add: exampleOptions_def)
  from parseCSVTrace_window [of "exampleCsv ''1,2,3,4,5''" "exampleOptions 1 10000",
      THEN conjunct2, rule_format, OF h]
  show ?thesis using h parse_one_start by simp
qed

lemma jsTimes_twice: "jsTimes (jsTimes x 0.00132) 1.25 = jsTimes x (0.00132 * 1.25)"
  by (cases x) simp_all

lemma pushRow_spec:
  "pushRow tr row =
     (if specAccepted row
      then \<lparr>t = t tr @ [field row 0],
            tenz = tenz tr @ [jsTimes (field row 1) (0.00132 * 1.25)],
            interf = interf tr @ [jsPlus (field row 3) 0.04]\<rparr>
      else tr)"
  unfolding pushRow_def specAccepted_def field_def Let_def isNaN_def jsTimes_twice
  by (cases tr) simp

lemma foldl_pushRow:
  "foldl pushRow tr rows =
     \<lparr>t = t tr @ map (\<lambda>row. field row 0) (filter specAccepted rows),
      tenz = tenz tr @ map (\<lambda>row. jsTimes (field row 1) (0.00132 * 1.25))
                         (filter specAccepted rows),
      interf = interf tr @ map (\<lambda>row. jsPlus (field row 3) 0.04) (filter specAccepted rows)\<rparr>"
proof (induction rows arbitrary: tr)
  case Nil
  then show ?case by (cases tr) simp
next
  case (Cons row rows)
  have "foldl pushRow tr (row # rows) = foldl pushRow (pushRow tr row) rows" by simp
  also have "\<dots> = \<lparr>t = t (pushRow tr row) @ map (\<lambda>row. field row 0) (filter specAccepted rows),
      tenz = tenz (pushRow tr row) @ map (\<lambda>row. jsTimes (field row 1) (0.00132 * 1.25))
                         (filter specAccepted rows),
      interf = interf (pushRow tr row)
               @ map (\<lambda>row. jsPlus (field row 3) 0.04) (filter specAccepted rows)\<rparr>"
    by (rule Cons.IH)
  finally show ?case
    by (cases "specAccepted row") (simp_all add: pushRow_spec [of tr row])
qed

text \<open>
  C4, amended. Among the rows inside the row window, the parser accepts exactly those with
  at least five comma-separated fields whose fields 0, 1 and 3 are read by \<open>parseFloat\<close>
  as something other than NaN (a finite number or an infinity). Each accepted row
  contributes its time unchanged, its strain value times \<open>0.00132 * 1.25\<close> and its
  interferometer value plus \<open>0.04\<close>, in order; the other rows contribute nothing. The
  parser is a total function: no row raises.
\<close>

theorem accepted_rows_scaled:
  "t (parseCSVTrace csvText opts) =
     map (\<lambda>row. field row 0)
       (filter specAccepted
          (specRetained (orDefault (skipStart opts) 6650) (orDefault (skipEnd opts) 27000)
             (specDataRows csvText))) \<and>
   tenz (parseCSVTrace csvText opts) =
     map (\<lambda>row. jsTimes (field row 1) (0.00132 * 1.25))
       (filter specAccepted
          (specRetained (orDefault (skipStart opts) 6650) (orDefault (skipEnd opts) 27000)
             (specDataRows csvText))) \<and>
   interf (parseCSVTrace csvText opts) =
     map (\<lambda>row. jsPlus (field row 3) 0.04)
       (filter specAccepted
          (specRetained (orDefault (skipStart opts) 6650) (orDefault (skipEnd opts) 27000)
             (specDataRows csvText)))"
  by (simp add: parseCSVTrace_retained foldl_pushRow emptyTrace_def)

lemma push_row_inf: "t (pushRow tr ''Infinity,1,0,2,0'') = t tr @ [PosInfinity]"
  unfolding pushRow_def split_row_inf Let_def
  by (simp add: isNaN_def parseFloat_def signedLiteral_def unsignedLiteral_def exponentPart_def
      isDigit_def isSpace_def digitsValue_def startsWith_def)

text \<open>
  C4, as claimed: a row is accepted exactly when the three fields parse as finite
  numbers. It fails: a row whose time field is \<open>Infinity\<close> is accepted.
\<close>

theorem infinite_field_counterexample:
  "t (parseCSVTrace (exampleCsv ''Infinity,1,0,2,0'') (exampleOptions 1 10000)) = [PosInfinity] \<and>
   \<not> isFinite (field ''Infinity,1,0,2,0'' 0)"
proof
  show "t (parseCSVTrace (exampleCsv ''Infinity,1,0,2,0'') (exampleOptions 1 10000))
        = [PosInfinity]"
    by (simp add: parseCSVTrace_def exampleOptions_def exampleCsv_def trim_def isSpace_def
        startsWith_def push_row_inf)
  show "\<not> isFinite (field ''Infinity,1,0,2,0'' 0)"
    unfolding field_def split_row_inf by (simp add: pf1 isFinite_def)
qed

subsection \<open>Matrix utilities\<close>

lemma rect_nth: "rect r c M \<Longrightarrow> i < r \<Longrightarrow> length (M ! i) = c"
  by (simp add: rect_def)

lemma rectI: "length M = r \<Longrightarrow> (\<And>i. i < r \<Longrightarrow> length (M ! i) = c) \<Longrightarrow> rect r c M"
  unfolding rect_def by (metis in_set_conv_nth)

lemma designMatrix_rect:
  "rect (nat (2 * h + 1)) (nat (\<lfloor>p\<rfloor> + 1)) (designMatrix h p)"
  by (simp add: rect_def designMatrix_def)

lemma designMatrix_nth:
  assumes "i < nat (2 * h + 1)" "j < nat (\<lfloor>p\<rfloor> + 1)"
  shows "designMatrix h p ! i ! j = real_of_int (int i - h) ^ j"
proof -
  have "[- h..h] ! i = - h + int i"
    using assms(1) by (intro nth_upto) linarith
  moreover have "i < length [- h..h]" using assms(1) by simp
  ultimately show ?thesis
    using assms(2) by (simp add: designMatrix_def algebra_simps)
qed

lemma transposeM_rect:
  assumes "rect r c M" "0 < r"
  shows "\<exists>MT. transposeM M = Inr MT \<and> rect c r MT \<and>
              (\<forall>i<c. \<forall>j<r. MT ! i ! j = M ! j ! i)"
proof -
  obtain r0 rest where M: "M = r0 # rest"
    using assms by (cases M) (auto simp: rect_def)
  have l: "length r0 = c" using assms M by (simp add: rect_def)
  have "transposeM M = Inr (map (\<lambda>i. map (\<lambda>row. row ! i) M) [0..<c])"
    by (simp add: transposeM_def M l)
  moreover have "rect c r (map (\<lambda>i. map (\<lambda>row. row ! i) M) [0..<c])"
    using assms by (simp add: rect_def)
  moreover have "\<forall>i<c. \<forall>j<r. map (\<lambda>i. map (\<lambda>row. row ! i) M) [0..<c] ! i ! j = M ! j ! i"
    using assms by (simp add: rect_def)
  ultimately show ?thesis by blast
qed

lemma multiply_row_fold:
  "foldl (\<lambda>Ci k. map (\<lambda>j. Ci ! j + f k j) [0..<d]) (replicate d (0::real)) [0..<c]
   = map (\<lambda>j. \<Sum>k<c. f k j) [0..<d]"
proof (induction c)
  case 0
  show ?case by (simp add: map_replicate_const)
next
  case (Suc c)
  have "map (\<lambda>j. map (\<lambda>j. \<Sum>k<c. f k j) [0..<d] ! j + f c j) [0..<d]
        = map (\<lambda>j. (\<Sum>k<c. f k j) + f c j) [0..<d]"
    by (rule map_cong) simp_all
  then show ?case using Suc by simp
qed

lemma multiplyMatrices_rect:
  assumes "rect r c A" "0 < r" "rect c d B" "0 < c"
  shows "\<exists>C. multiplyMatrices A B = Inr C \<and> rect r d C \<and>
             (\<forall>i<r. \<forall>j<d. C ! i ! j = (\<Sum>k<c. A ! i ! k * B ! k ! j))"
proof -
  obtain a0 arest where A: "A = a0 # arest"
    using assms by (cases A) (auto simp: rect_def)
  obtain b0 brest where B: "B = b0 # brest"
    using assms by (cases B) (auto simp: rect_def)
  have la: "length a0 = c" "length A = r" using assms A by (simp_all add: rect_def)
  have lb: "length b0 = d" "length B = c" using assms B by (simp_all add: rect_def)
  let ?C = "map (\<lambda>i. map (\<lambda>j. \<Sum>k<c. A ! i ! k * B ! k ! j) [0..<d]) [0..<r]"
  have "multiplyMatrices A B =
          Inr (map (\<lambda>i. foldl (\<lambda>Ci k. map (\<lambda>j. Ci ! j + A ! i ! k * B ! k ! j) [0..<d])
                              (replicate d 0) [0..<c]) [0..<r])"
    unfolding multiplyMatrices_def A B list.case
    using la lb by (simp add: A [symmetric] B [symmetric])
  then have "multiplyMatrices A B = Inr ?C"
    by (simp only: multiply_row_fold)
  moreover have "rect r d ?C" by (simp add: rect_def)
  moreover have "\<forall>i<r. \<forall>j<d. ?C ! i ! j = (\<Sum>k<c. A ! i ! k * B ! k ! j)" by simp
  ultimately show ?thesis by blast
qed

subsection \<open>The sliding window\<close>

lemma foldl_plus_sum_list:
  "foldl (\<lambda>acc x. acc + f x) (a::real) xs = a + sum_list (map f xs)"
  by (induction xs arbitrary: a) (simp_all add: algebra_simps)

lemma windowSum_sum:
  "windowSum data coeffs h i =
     (\<Sum>j = - h..h.
        data ! nat (if (if int i + j < 0 then 0 else int i + j) \<ge> int (length data)
                    then int (length data) - 1
                    else (if int i + j < 0 then 0 else int i + j))
        * coeffs ! nat (j + h))"
  unfolding windowSum_def Let_def foldl_plus_sum_list
  by (simp add: sum_set_upto_conv_sum_list_int [symmetric])

lemma sum_window_coeffs:
  assumes "0 \<le> h" "length coeffs = nat (2 * h + 1)"
  shows "(\<Sum>j = - h..h. coeffs ! nat (j + h)) = sum_list coeffs"
proof -
  have "(\<Sum>j = - h..h. coeffs ! nat (j + h)) = (\<Sum>k<nat (2 * h + 1). coeffs ! k)"
  proof (rule sum.reindex_bij_witness [where i = "\<lambda>k. int k - h" and j = "\<lambda>j. nat (j + h)"])
    fix a assume "a \<in> {- h..h}"
    then show "int (nat (a + h)) - h = a" "nat (a + h) \<in> {..<nat (2 * h + 1)}" by auto
    show "coeffs ! nat (a + h) = coeffs ! nat (a + h)" ..
  next
    fix b assume "b \<in> {..<nat (2 * h + 1)}"
    then show "nat (int b - h + h) = b" "int b - h \<in> {- h..h}" using assms(1) by auto
  qed
  also have "\<dots> = sum_list coeffs"
    using assms(2) by (simp add: sum_list_sum_nth atLeast0LessThan)
  finally show ?thesis .
qed


subsection \<open>Gauss--Jordan elimination\<close>

lemma foldl_choice_in:
  "mr \<in> S \<Longrightarrow> set ks \<subseteq> S \<Longrightarrow> foldl (\<lambda>mr k. if P k mr then k else mr) mr ks \<in> S"
  by (induction ks arbitrary: mr) simp_all

lemma pivotRow_range:
  assumes "i < n"
  shows "i \<le> pivotRow A n i" "pivotRow A n i < n"
proof -
  have "pivotRow A n i \<in> {i..<n}"
    unfolding pivotRow_def
    by (rule foldl_choice_in) (use assms in auto)
  then show "i \<le> pivotRow A n i" "pivotRow A n i < n" by simp_all
qed

lemma swapRows_nth:
  assumes "length A = n" "i < n" "p < n" "k < n"
  shows "swapRows A i p ! k = (if k = i then A ! p else if k = p then A ! i else A ! k)"
  using assms by (auto simp: swapRows_def nth_list_update)

lemma swapRows_length: "length (swapRows A i p) = length A"
  by (simp add: swapRows_def)

lemma scaleRow_nth:
  assumes "length A = n" "k < n"
  shows "scaleRow A n i ! k = (if k = i then map (\<lambda>j. A ! i ! j / A ! i ! i) [0..<2 * n] else A ! k)"
  using assms by (auto simp: scaleRow_def nth_list_update)

lemma scaleRow_length: "length (scaleRow A n i) = length A"
  by (simp add: scaleRow_def)

lemma eliminate_prefix:
  assumes "length A = n" "i < n" "m \<le> n"
  shows "length (foldl (\<lambda>B k. if k = i then B
                   else B[k := map (\<lambda>j. B ! k ! j - B ! k ! i * B ! i ! j) [0..<2 * n]])
           A [0..<m]) = n \<and>
         (\<forall>k<n. foldl (\<lambda>B k. if k = i then B
                   else B[k := map (\<lambda>j. B ! k ! j - B ! k ! i * B ! i ! j) [0..<2 * n]])
           A [0..<m] ! k = (if k < m \<and> k \<noteq> i then elimRow A n i k else A ! k))"
  using assms(3)
proof (induction m)
  case 0
  then show ?case using assms by simp
next
  case (Suc m)
  let ?g = "\<lambda>B k. if k = i then B
                   else B[k := map (\<lambda>j. B ! k ! j - B ! k ! i * B ! i ! j) [0..<2 * n]]"
  let ?B = "foldl ?g A [0..<m]"
  have ih: "length ?B = n" "\<And>k. k < n \<Longrightarrow> ?B ! k = (if k < m \<and> k \<noteq> i then elimRow A n i k else A ! k)"
    using Suc by simp_all
  have m: "m < n" using Suc.prems by simp
  have step: "foldl ?g A [0..<Suc m] = ?g ?B m" by simp
  show ?case
  proof (cases "m = i")
    case True
    then have "foldl ?g A [0..<Suc m] = ?B" by (simp only: step) simp
    moreover have "\<And>k. (k < Suc m \<and> k \<noteq> i) = (k < m \<and> k \<noteq> i)"
      using True by auto
    ultimately show ?thesis using ih by simp
  next
    case False
    have Bm: "?B ! m = A ! m" using ih(2) [OF m] by simp
    have Bi: "?B ! i = A ! i" using ih(2) [OF assms(2)] by simp
    have "?g ?B m = ?B[m := elimRow A n i m]"
      using False by (simp only: Bm Bi elimRow_def if_False)
    then have eq: "foldl ?g A [0..<Suc m] = ?B[m := elimRow A n i m]"
      by (simp only: step)
    show ?thesis
      unfolding eq using ih m False by (auto simp: nth_list_update less_Suc_eq)
  qed
qed

lemma eliminateColumn_nth:
  assumes "length A = n" "i < n" "k < n"
  shows "eliminateColumn A n i ! k = (if k = i then A ! i else elimRow A n i k)"
    and "length (eliminateColumn A n i) = n"
  using eliminate_prefix [OF assms(1,2), of n] assms(3)
  by (auto simp: eliminateColumn_def)

lemma rowRel_scale:
  assumes "rowRel n m r"
  shows "rowRel n m (map (\<lambda>j. r ! j / d) [0..<2 * n])"
  unfolding rowRel_def
proof (intro allI impI)
  fix c assume c: "c < n"
  have "(\<Sum>k<n. map (\<lambda>j. r ! j / d) [0..<2 * n] ! (n + k) * m ! k ! c)
        = (\<Sum>k<n. (r ! (n + k) * m ! k ! c) / d)"
    by (rule sum.cong) simp_all
  also have "\<dots> = (\<Sum>k<n. r ! (n + k) * m ! k ! c) / d"
    by (simp add: sum_divide_distrib)
  also have "\<dots> = r ! c / d"
    using assms c by (simp add: rowRel_def)
  finally show "(\<Sum>k<n. map (\<lambda>j. r ! j / d) [0..<2 * n] ! (n + k) * m ! k ! c)
                = map (\<lambda>j. r ! j / d) [0..<2 * n] ! c"
    using c by simp
qed

lemma rowRel_sub:
  assumes "rowRel n m r" "rowRel n m s"
  shows "rowRel n m (map (\<lambda>j. r ! j - f * s ! j) [0..<2 * n])"
  unfolding rowRel_def
proof (intro allI impI)
  fix c assume c: "c < n"
  have "(\<Sum>k<n. map (\<lambda>j. r ! j - f * s ! j) [0..<2 * n] ! (n + k) * m ! k ! c)
        = (\<Sum>k<n. r ! (n + k) * m ! k ! c - f * (s ! (n + k) * m ! k ! c))"
    by (rule sum.cong) (simp_all add: algebra_simps)
  also have "\<dots> = (\<Sum>k<n. r ! (n + k) * m ! k ! c) - f * (\<Sum>k<n. s ! (n + k) * m ! k ! c)"
    by (simp add: sum_subtractf sum_distrib_left)
  also have "\<dots> = r ! c - f * s ! c"
    using assms c by (simp add: rowRel_def)
  finally show "(\<Sum>k<n. map (\<lambda>j. r ! j - f * s ! j) [0..<2 * n] ! (n + k) * m ! k ! c)
                = map (\<lambda>j. r ! j - f * s ! j) [0..<2 * n] ! c"
    using c by simp
qed

lemma gaussJordanStep_inv:
  assumes inv: "gjInv n m i A" and i: "i < n" and step: "gaussJordanStep n i A = Inr A'"
  shows "gjInv n m (Suc i) A'"
proof -
  define p where "p = pivotRow A n i"
  define A1 where "A1 = swapRows A i p"
  define A2 where "A2 = scaleRow A1 n i"
  have p: "i \<le> p" "p < n" using pivotRow_range [OF i, of A] by (simp_all add: p_def)
  have piv: "\<not> \<bar>A ! p ! i\<bar> < 1 / 10 ^ 15" and A': "A' = eliminateColumn A2 n i"
    using step by (auto simp: gaussJordanStep_def p_def A1_def A2_def split: if_splits)
  have lenA: "length A = n" and rows: "\<And>k. k < n \<Longrightarrow> length (A ! k) = 2 * n"
    and rel: "\<And>k. k < n \<Longrightarrow> rowRel n m (A ! k)"
    and cdone: "\<And>c k. c < i \<Longrightarrow> k < n \<Longrightarrow> A ! k ! c = (if k = c then 1 else 0)"
    using inv by (auto simp: gjInv_def rect_def colsDone_def)
  have len1: "length A1 = n" by (simp add: A1_def swapRows_length lenA)
  have A1: "\<And>k. k < n \<Longrightarrow> A1 ! k = (if k = i then A ! p else if k = p then A ! i else A ! k)"
    unfolding A1_def using swapRows_nth [OF lenA i p(2)] by blast
  have rows1: "\<And>k. k < n \<Longrightarrow> length (A1 ! k) = 2 * n"
    using A1 rows i p by simp
  have rel1: "\<And>k. k < n \<Longrightarrow> rowRel n m (A1 ! k)"
    using A1 rel i p by simp
  have done1: "\<And>c k. c < i \<Longrightarrow> k < n \<Longrightarrow> A1 ! k ! c = (if k = c then 1 else 0)"
    using A1 cdone i p by auto
  have d: "A1 ! i ! i \<noteq> 0"
  proof -
    have "A1 ! i ! i = A ! p ! i" using A1 [OF i] by simp
    moreover have "A ! p ! i \<noteq> 0" using piv by auto
    ultimately show ?thesis by simp
  qed
  have len2: "length A2 = n" by (simp add: A2_def scaleRow_length len1)
  have A2: "\<And>k. k < n \<Longrightarrow>
              A2 ! k = (if k = i then map (\<lambda>j. A1 ! i ! j / A1 ! i ! i) [0..<2 * n] else A1 ! k)"
    unfolding A2_def using scaleRow_nth [OF len1] by blast
  have rows2: "\<And>k. k < n \<Longrightarrow> length (A2 ! k) = 2 * n"
    using A2 rows1 by simp
  have rel2: "\<And>k. k < n \<Longrightarrow> rowRel n m (A2 ! k)"
    using A2 rel1 rowRel_scale [OF rel1 [OF i]] by simp
  have done2: "\<And>c k. c < i \<Longrightarrow> k < n \<Longrightarrow> A2 ! k ! c = (if k = c then 1 else 0)"
  proof -
    fix c k assume c: "c < i" and k: "k < n"
    show "A2 ! k ! c = (if k = c then 1 else 0)"
    proof (cases "k = i")
      case True
      have "A2 ! i ! c = A1 ! i ! c / A1 ! i ! i" using A2 [OF i] c i by simp
      also have "A1 ! i ! c = 0" using done1 [OF c i] c by simp
      finally show ?thesis using True c by simp
    next
      case False
      then show ?thesis using A2 [OF k] done1 [OF c k] by simp
    qed
  qed
  have one2: "A2 ! i ! i = 1"
    using A2 [OF i] i d by simp
  have len': "length A' = n"
    unfolding A' using eliminateColumn_nth(2) [OF len2 i i] .
  have A'n: "\<And>k. k < n \<Longrightarrow> A' ! k = (if k = i then A2 ! i else elimRow A2 n i k)"
    unfolding A' using eliminateColumn_nth(1) [OF len2 i] by blast
  have rect': "rect n (2 * n) A'"
  proof (rule rectI [OF len'])
    fix k assume k: "k < n"
    show "length (A' ! k) = 2 * n"
      using A'n [OF k] rows2 [OF i] by (simp add: elimRow_def)
  qed
  have rel': "\<forall>k<n. rowRel n m (A' ! k)"
  proof (intro allI impI)
    fix k assume k: "k < n"
    show "rowRel n m (A' ! k)"
      using A'n [OF k] rel2 [OF i] rowRel_sub [OF rel2 [OF k] rel2 [OF i], of "A2 ! k ! i"]
      by (simp add: elimRow_def)
  qed
  have done': "colsDone n (Suc i) A'"
    unfolding colsDone_def
  proof (intro allI impI)
    fix c k assume c: "c < Suc i" and k: "k < n"
    have c2: "c < 2 * n" using c i by simp
    show "A' ! k ! c = (if k = c then 1 else 0)"
    proof (cases "k = i")
      case True
      show ?thesis
      proof (cases "c = i")
        case True
        then show ?thesis using \<open>k = i\<close> A'n [OF i] one2 by simp
      next
        case False
        then have "c < i" using c by simp
        then show ?thesis using \<open>k = i\<close> A'n [OF i] done2 [OF _ i] by simp
      qed
    next
      case False
      have row: "A' ! k ! c = A2 ! k ! c - A2 ! k ! i * A2 ! i ! c"
        using A'n [OF k] False c2 by (simp add: elimRow_def)
      show ?thesis
      proof (cases "c = i")
        case True
        then show ?thesis using row one2 False by simp
      next
        case F2: False
        then have ci: "c < i" using c by simp
        have "A2 ! i ! c = 0" using done2 [OF ci i] ci by simp
        then show ?thesis using row done2 [OF ci k] by simp
      qed
    qed
  qed
  show ?thesis using rect' rel' done' by (simp add: gjInv_def)
qed

lemma gaussJordan_inv:
  "gaussJordan n i A = Inr A' \<Longrightarrow> gjInv n m i A \<Longrightarrow> i \<le> n \<Longrightarrow> gjInv n m n A'"
proof (induction n i A rule: gaussJordan.induct)
  case (1 n i A)
  show ?case
  proof (cases "i < n")
    case True
    then obtain A1 where s: "gaussJordanStep n i A = Inr A1"
      and r: "gaussJordan n (i + 1) A1 = Inr A'"
      using "1.prems"(1) by (subst (asm) gaussJordan.simps) (auto split: sum.splits)
    have "gjInv n m (Suc i) A1" by (rule gaussJordanStep_inv [OF "1.prems"(2) True s])
    then show ?thesis using "1.IH" [OF True s r] True by simp
  next
    case False
    then have "i = n" using "1.prems"(3) by simp
    moreover have "A' = A" using "1.prems"(1) False by (subst (asm) gaussJordan.simps) simp
    ultimately show ?thesis using "1.prems"(2) by simp
  qed
qed

lemma gaussJordan_error:
  "gaussJordan n i A = Inl e \<Longrightarrow> e = MatrixDegenerate"
proof (induction n i A rule: gaussJordan.induct)
  case (1 n i A)
  show ?case
  proof (cases "i < n")
    case True
    show ?thesis
    proof (cases "gaussJordanStep n i A")
      case (Inl e')
      then have "e' = MatrixDegenerate" by (auto simp: gaussJordanStep_def split: if_splits)
      moreover have "e = e'" using "1.prems" True Inl by (subst (asm) gaussJordan.simps) simp
      ultimately show ?thesis by simp
    next
      case (Inr A1)
      then have "gaussJordan n (i + 1) A1 = Inl e"
        using "1.prems" True by (subst (asm) gaussJordan.simps) simp
      then show ?thesis using "1.IH" [OF True Inr] by simp
    qed
  next
    case False
    then show ?thesis using "1.prems" by (subst (asm) gaussJordan.simps) simp
  qed
qed

lemma invertMatrix_error: "invertMatrix m = Inl e \<Longrightarrow> e = MatrixDegenerate"
  by (auto simp: invertMatrix_def split: sum.splits dest: gaussJordan_error)

lemma augment_inv:
  assumes "rect n n m"
  shows "gjInv n m 0 (augment m)"
proof -
  have len: "length m = n" and rows: "\<And>k. k < n \<Longrightarrow> length (m ! k) = n"
    using assms by (simp_all add: rect_def)
  have nth: "\<And>k. k < n \<Longrightarrow> augment m ! k = m ! k @ map (\<lambda>j. if k = j then 1 else 0) [0..<n]"
    by (simp add: augment_def len)
  have "rect n (2 * n) (augment m)"
    by (rule rectI) (simp_all add: augment_def len rows)
  moreover have "\<forall>k<n. rowRel n m (augment m ! k)"
  proof (intro allI impI)
    fix k assume k: "k < n"
    show "rowRel n m (augment m ! k)"
      unfolding rowRel_def
    proof (intro allI impI)
      fix c assume c: "c < n"
      have "(\<Sum>k'<n. augment m ! k ! (n + k') * m ! k' ! c)
            = (\<Sum>k'<n. (if k = k' then 1 else 0) * m ! k' ! c)"
        by (rule sum.cong) (simp_all add: nth [OF k] nth_append rows [OF k])
      also have "\<dots> = (\<Sum>k'<n. if k' = k then m ! k' ! c else 0)"
        by (rule sum.cong) auto
      also have "\<dots> = m ! k ! c"
        using k by (simp add: sum.delta)
      finally show "(\<Sum>k'<n. augment m ! k ! (n + k') * m ! k' ! c) = augment m ! k ! c"
        using c by (simp add: nth [OF k] nth_append rows [OF k])
    qed
  qed
  ultimately show ?thesis by (simp add: gjInv_def colsDone_def)
qed

lemma invertMatrix_left_inverse:
  assumes "rect n n m" "invertMatrix m = Inr Ainv"
  shows "rect n n Ainv"
    and "\<And>r c. r < n \<Longrightarrow> c < n \<Longrightarrow>
           (\<Sum>k<n. Ainv ! r ! k * m ! k ! c) = (if r = c then 1 else 0)"
proof -
  have len: "length m = n" using assms(1) by (simp add: rect_def)
  obtain A' where g: "gaussJordan n 0 (augment m) = Inr A'" and Ainv: "Ainv = map (drop n) A'"
    using assms(2) by (auto simp: invertMatrix_def len split: sum.splits)
  have inv: "gjInv n m n A'"
    by (rule gaussJordan_inv [OF g augment_inv [OF assms(1)]]) simp
  then have lenA: "length A' = n" and rows: "\<And>k. k < n \<Longrightarrow> length (A' ! k) = 2 * n"
    and rel: "\<And>k. k < n \<Longrightarrow> rowRel n m (A' ! k)"
    and cdone: "\<And>c k. c < n \<Longrightarrow> k < n \<Longrightarrow> A' ! k ! c = (if k = c then 1 else 0)"
    by (auto simp: gjInv_def rect_def colsDone_def)
  show "rect n n Ainv"
    by (rule rectI) (simp_all add: Ainv lenA rows)
  fix r c assume r: "r < n" and c: "c < n"
  have "(\<Sum>k<n. Ainv ! r ! k * m ! k ! c) = (\<Sum>k<n. A' ! r ! (n + k) * m ! k ! c)"
    by (rule sum.cong) (simp_all add: Ainv lenA r rows)
  also have "\<dots> = A' ! r ! c"
    using rel [OF r] c by (simp add: rowRel_def)
  finally show "(\<Sum>k<n. Ainv ! r ! k * m ! k ! c) = (if r = c then 1 else 0)"
    using cdone [OF c r] by simp
qed

subsection \<open>The filter kernel\<close>

lemma norm_bounds:
  "3 \<le> normWindow w \<and> odd (normWindow w) \<and> 1 \<le> normOrder w p \<and>
   normOrder w p < normWindow w \<and> 1 \<le> normWindow w div 2"
  by (auto simp: normWindow_def normOrder_def Let_def)

lemma kernelDegenerate_None: "kernelDegenerate h p \<Longrightarrow> filterKernel h p = Inr None"
  by (auto simp: kernelDegenerate_def filterKernel_def split: sum.splits)

lemma filterKernel_cases:
  assumes h: "0 \<le> h" and p: "0 \<le> \<lfloor>p\<rfloor>"
  shows "filterKernel h p = Inr None \<or>
         (\<exists>K. filterKernel h p = Inr (Some K) \<and>
              rect (nat (\<lfloor>p\<rfloor> + 1)) (nat (2 * h + 1)) K \<and> sum_list (K ! 0) = 1)"
proof -
  define W where "W = nat (2 * h + 1)"
  define P where "P = nat (\<lfloor>p\<rfloor> + 1)"
  define A where "A = designMatrix h p"
  have W: "0 < W" and P: "0 < P" using h p by (simp_all add: W_def P_def)
  have rA: "rect W P A" unfolding W_def P_def A_def by (rule designMatrix_rect)
  have A0: "\<And>j. j < W \<Longrightarrow> A ! j ! 0 = 1"
    using designMatrix_nth [of _ h 0 p] P by (simp add: A_def W_def P_def)
  obtain AT where AT: "transposeM A = Inr AT" and rAT: "rect P W AT"
    and ATn: "\<And>i j. i < P \<Longrightarrow> j < W \<Longrightarrow> AT ! i ! j = A ! j ! i"
    using transposeM_rect [OF rA W] by blast
  obtain ATA where ATA: "multiplyMatrices AT A = Inr ATA" and rATA: "rect P P ATA"
    and ATAn: "\<And>i j. i < P \<Longrightarrow> j < P \<Longrightarrow> ATA ! i ! j = (\<Sum>k<W. AT ! i ! k * A ! k ! j)"
    using multiplyMatrices_rect [OF rAT P rA W] by blast
  show ?thesis
  proof (cases "invertMatrix ATA")
    case (Inl e)
    then have "filterKernel h p = Inr None"
      using AT ATA by (simp add: filterKernel_def A_def [symmetric])
    then show ?thesis by simp
  next
    case (Inr Ainv)
    have rinv: "rect P P Ainv"
      and inv: "\<And>r c. r < P \<Longrightarrow> c < P \<Longrightarrow>
                 (\<Sum>k<P. Ainv ! r ! k * ATA ! k ! c) = (if r = c then 1 else 0)"
      using invertMatrix_left_inverse [OF rATA Inr] by blast+
    obtain K where K: "multiplyMatrices Ainv AT = Inr K" and rK: "rect P W K"
      and Kn: "\<And>i j. i < P \<Longrightarrow> j < W \<Longrightarrow> K ! i ! j = (\<Sum>k<P. Ainv ! i ! k * AT ! k ! j)"
      using multiplyMatrices_rect [OF rinv P rAT P] by blast
    have fk: "filterKernel h p = Inr (Some K)"
      using AT ATA Inr K by (simp add: filterKernel_def A_def [symmetric])
    have col0: "\<And>k. k < P \<Longrightarrow> (\<Sum>j<W. AT ! k ! j) = ATA ! k ! 0"
    proof -
      fix k assume k: "k < P"
      have "ATA ! k ! 0 = (\<Sum>j<W. AT ! k ! j * A ! j ! 0)" using ATAn [OF k P] .
      also have "\<dots> = (\<Sum>j<W. AT ! k ! j)"
        by (rule sum.cong) (simp_all add: A0)
      finally show "(\<Sum>j<W. AT ! k ! j) = ATA ! k ! 0" by simp
    qed
    have "length (K ! 0) = W" using rK P by (simp add: rect_def)
    then have "sum_list (K ! 0) = (\<Sum>j<W. K ! 0 ! j)"
      by (simp add: sum_list_sum_nth atLeast0LessThan)
    also have "\<dots> = (\<Sum>j<W. \<Sum>k<P. Ainv ! 0 ! k * AT ! k ! j)"
      by (rule sum.cong) (simp_all add: Kn [OF P])
    also have "\<dots> = (\<Sum>k<P. \<Sum>j<W. Ainv ! 0 ! k * AT ! k ! j)"
      by (rule sum.swap)
    also have "\<dots> = (\<Sum>k<P. Ainv ! 0 ! k * (\<Sum>j<W. AT ! k ! j))"
      by (simp add: sum_distrib_left)
    also have "\<dots> = (\<Sum>k<P. Ainv ! 0 ! k * ATA ! k ! 0)"
      by (rule sum.cong) (simp_all add: col0)
    also have "\<dots> = 1" using inv [OF P P] by simp
    finally have "sum_list (K ! 0) = 1" .
    then show ?thesis using fk rK by (auto simp: W_def P_def)
  qed
qed

lemma sgSmooth_cases:
  assumes h: "0 \<le> h" and p: "0 \<le> \<lfloor>p\<rfloor>"
  shows "sgSmooth data h p = Inr data \<or>
         (\<exists>coeffs rest. filterKernel h p = Inr (Some (coeffs # rest)) \<and>
              length coeffs = nat (2 * h + 1) \<and> sum_list coeffs = 1 \<and>
              sgSmooth data h p = Inr (map (windowSum data coeffs h) [0..<length data]))"
proof -
  from filterKernel_cases [OF h p] show ?thesis
  proof
    assume "filterKernel h p = Inr None"
    then show ?thesis by (simp add: sgSmooth_def)
  next
    assume "\<exists>K. filterKernel h p = Inr (Some K) \<and>
              rect (nat (\<lfloor>p\<rfloor> + 1)) (nat (2 * h + 1)) K \<and> sum_list (K ! 0) = 1"
    then obtain K where K: "filterKernel h p = Inr (Some K)"
      and r: "rect (nat (\<lfloor>p\<rfloor> + 1)) (nat (2 * h + 1)) K" and s: "sum_list (K ! 0) = 1"
      by blast
    have "0 < length K" using r p by (simp add: rect_def)
    then obtain coeffs rest where c: "K = coeffs # rest" by (cases K) simp_all
    have "length coeffs = nat (2 * h + 1)" using r c by (simp add: rect_def)
    moreover have "sum_list coeffs = 1" using s c by simp
    moreover have "sgSmooth data h p = Inr (map (windowSum data coeffs h) [0..<length data])"
      by (simp add: sgSmooth_def K c)
    ultimately show ?thesis using K c by blast
  qed
qed

lemma savitzkyGolay_total: "\<exists>r. savitzkyGolay data w p = Inr r"
proof (cases "data = []")
  case True
  then show ?thesis by (simp add: savitzkyGolay_def)
next
  case False
  have "0 \<le> normWindow w div 2" "0 \<le> \<lfloor>real_of_int (normOrder w p)\<rfloor>"
    using norm_bounds [of w p] by simp_all
  from sgSmooth_cases [OF this, where data = data] show ?thesis
    using False by (auto simp: savitzkyGolay_def)
qed


subsection \<open>Savitzky--Golay filter: evaluation at concrete parameters\<close>

lemma filterKernel_eval:
  assumes "designMatrix h p = A" "transposeM A = Inr AT" "multiplyMatrices AT A = Inr ATA"
    "invertMatrix ATA = Inr Ainv" "multiplyMatrices Ainv AT = Inr K"
  shows "filterKernel h p = Inr (Some K)"
  using assms by (simp add: filterKernel_def)

lemma filterKernel_eval_degenerate:
  assumes "designMatrix h p = A" "transposeM A = Inr AT" "multiplyMatrices AT A = Inr ATA"
    "invertMatrix ATA = Inl e"
  shows "filterKernel h p = Inr None"
  using assms by (simp add: filterKernel_def)

lemma kernel_2_2:
  "filterKernel 2 2 =
     Inr (Some [[- 3 / 35, 12 / 35, 17 / 35, 12 / 35, - 3 / 35],
                [- 1 / 5, - 1 / 10, 0, 1 / 10, 1 / 5],
                [1 / 7, - 1 / 14, - 1 / 7, - 1 / 14, 1 / 7]])"
proof (rule filterKernel_eval)
  show "designMatrix 2 2 = [[1, - 2, 4], [1, - 1, 1], [1, 0, 0], [1, 1, 1], [1, 2, 4]]"
    by code_simp
  show "transposeM [[1, - 2, 4], [1, - 1, 1], [1, 0, 0], [1, 1, 1], [1, 2, 4]]
        = Inr [[1, 1, 1, 1, 1], [- 2, - 1, 0, 1, 2], [4, 1, 0, 1, 4]]"
    by code_simp
  show "multiplyMatrices [[1, 1, 1, 1, 1], [- 2, - 1, 0, 1, 2], [4, 1, 0, 1, 4]]
          [[1, - 2, 4], [1, - 1, 1], [1, 0, 0], [1, 1, 1], [1, 2, 4]]
        = Inr [[5, 0, 10], [0, 10, 0], [10, 0, 34]]"
    by code_simp
  show "invertMatrix [[5, 0, 10], [0, 10, 0], [10, 0, 34]]
        = Inr [[17 / 35, 0, - 1 / 7], [0, 1 / 10, 0], [- 1 / 7, 0, 1 / 14]]"
    by code_simp
  show "multiplyMatrices [[17 / 35, 0, - 1 / 7], [0, 1 / 10, 0], [- 1 / 7, 0, 1 / 14]]
          [[1, 1, 1, 1, 1], [- 2, - 1, 0, 1, 2], [4, 1, 0, 1, 4]]
        = Inr [[- 3 / 35, 12 / 35, 17 / 35, 12 / 35, - 3 / 35],
                [- 1 / 5, - 1 / 10, 0, 1 / 10, 1 / 5],
                [1 / 7, - 1 / 14, - 1 / 7, - 1 / 14, 1 / 7]]"
    by code_simp
qed


lemma kernelDegenerate_eval:
  assumes "designMatrix h p = A" "transposeM A = Inr AT" "multiplyMatrices AT A = Inr ATA"
    "invertMatrix ATA = Inl MatrixDegenerate"
  shows "kernelDegenerate h p"
  using assms by (simp add: kernelDegenerate_def)

lemma kernel_1_2:
  "filterKernel 1 2 =
     Inr (Some [[0, 1, 0],
               [- 1 / 2, 0, 1 / 2],
               [1 / 2, - 1, 1 / 2]])"
proof (rule filterKernel_eval)
  show "designMatrix 1 2 =
        [[1, - 1, 1],
         [1, 0, 0],
         [1, 1, 1]]"
    by code_simp
  show "transposeM
          [[1, - 1, 1],
           [1, 0, 0],
           [1, 1, 1]]
        = Inr [[1, 1, 1],
             [- 1, 0, 1],
             [1, 0, 1]]"
    by code_simp
  show "multiplyMatrices
          [[1, 1, 1],
           [- 1, 0, 1],
           [1, 0, 1]]
          [[1, - 1, 1],
           [1, 0, 0],
           [1, 1, 1]]
        = Inr [[3, 0, 2],
             [0, 2, 0],
             [2, 0, 2]]"
    by code_simp
  show "invertMatrix
          [[3, 0, 2],
           [0, 2, 0],
           [2, 0, 2]]
        = Inr [[1, 0, - 1],
             [0, 1 / 2, 0],
             [- 1, 0, 3 / 2]]"
    by code_simp
  show "multiplyMatrices
          [[1, 0, - 1],
           [0, 1 / 2, 0],
           [- 1, 0, 3 / 2]]
          [[1, 1, 1],
           [- 1, 0, 1],
           [1, 0, 1]]
        = Inr [[0, 1, 0],
             [- 1 / 2, 0, 1 / 2],
             [1 / 2, - 1, 1 / 2]]"
    by code_simp
qed

lemma kernel_1_0:
  "filterKernel 1 0 =
     Inr (Some [[1 / 3, 1 / 3, 1 / 3]])"
proof (rule filterKernel_eval)
  show "designMatrix 1 0 =
        [[1],
         [1],
         [1]]"
    by code_simp
  show "transposeM
          [[1],
           [1],
           [1]]
        = Inr [[1, 1, 1]]"
    by code_simp
  show "multiplyMatrices
          [[1, 1, 1]]
          [[1],
           [1],
           [1]]
        = Inr [[3]]"
    by code_simp
  show "invertMatrix
          [[3]]
        = Inr [[1 / 3]]"
    by code_simp
  show "multiplyMatrices
          [[1 / 3]]
          [[1, 1, 1]]
        = Inr [[1 / 3, 1 / 3, 1 / 3]]"
    by code_simp
qed

lemma kernel_0_1_degenerate: "kernelDegenerate 0 1"
proof (rule kernelDegenerate_eval)
  show "designMatrix 0 1 =
        [[1, 0]]"
    by code_simp
  show "transposeM
          [[1, 0]]
        = Inr [[1],
             [0]]"
    by code_simp
  show "multiplyMatrices
          [[1],
           [0]]
          [[1, 0]]
        = Inr [[1, 0],
             [0, 0]]"
    by code_simp
  show "invertMatrix
          [[1, 0],
           [0, 0]]
        = Inl MatrixDegenerate"
    by code_simp
qed

lemma kernel_1_3_degenerate: "kernelDegenerate 1 3"
proof (rule kernelDegenerate_eval)
  show "designMatrix 1 3 =
        [[1, - 1, 1, - 1],
         [1, 0, 0, 0],
         [1, 1, 1, 1]]"
    by code_simp
  show "transposeM
          [[1, - 1, 1, - 1],
           [1, 0, 0, 0],
           [1, 1, 1, 1]]
        = Inr [[1, 1, 1],
             [- 1, 0, 1],
             [1, 0, 1],
             [- 1, 0, 1]]"
    by code_simp
  show "multiplyMatrices
          [[1, 1, 1],
           [- 1, 0, 1],
           [1, 0, 1],
           [- 1, 0, 1]]
          [[1, - 1, 1, - 1],
           [1, 0, 0, 0],
           [1, 1, 1, 1]]
        = Inr [[3, 0, 2, 0],
             [0, 2, 0, 2],
             [2, 0, 2, 0],
             [0, 2, 0, 2]]"
    by code_simp
  show "invertMatrix
          [[3, 0, 2, 0],
           [0, 2, 0, 2],
           [2, 0, 2, 0],
           [0, 2, 0, 2]]
        = Inl MatrixDegenerate"
    by code_simp
qed

lemma kernel_5_2:
  "filterKernel 5 2 =
     Inr (Some [[- 12 / 143, 3 / 143, 4 / 39, 23 / 143, 28 / 143, 89 / 429, 28 / 143, 23 / 143, 4 / 39, 3 / 143, - 12 / 143],
               [- 1 / 22, - 2 / 55, - 3 / 110, - 1 / 55, - 1 / 110, 0, 1 / 110, 1 / 55, 3 / 110, 2 / 55, 1 / 22],
               [5 / 286, 1 / 143, - 1 / 858, - 1 / 143, - 3 / 286, - 5 / 429, - 3 / 286, - 1 / 143, - 1 / 858, 1 / 143, 5 / 286]])"
proof (rule filterKernel_eval)
  show "designMatrix 5 2 =
        [[1, - 5, 25],
         [1, - 4, 16],
         [1, - 3, 9],
         [1, - 2, 4],
         [1, - 1, 1],
         [1, 0, 0],
         [1, 1, 1],
         [1, 2, 4],
         [1, 3, 9],
         [1, 4, 16],
         [1, 5, 25]]"
    by code_simp
  show "transposeM
          [[1, - 5, 25],
           [1, - 4, 16],
           [1, - 3, 9],
           [1, - 2, 4],
           [1, - 1, 1],
           [1, 0, 0],
           [1, 1, 1],
           [1, 2, 4],
           [1, 3, 9],
           [1, 4, 16],
           [1, 5, 25]]
        = Inr [[1, 1, 1, 1, 1, 1, 1, 1, 1, 1, 1],
             [- 5, - 4, - 3, - 2, - 1, 0, 1, 2, 3, 4, 5],
             [25, 16, 9, 4, 1, 0, 1, 4, 9, 16, 25]]"
    by code_simp
  show "multiplyMatrices
          [[1, 1, 1, 1, 1, 1, 1, 1, 1, 1, 1],
           [- 5, - 4, - 3, - 2, - 1, 0, 1, 2, 3, 4, 5],
           [25, 16, 9, 4, 1, 0, 1, 4, 9, 16, 25]]
          [[1, - 5, 25],
           [1, - 4, 16],
           [1, - 3, 9],
           [1, - 2, 4],
           [1, - 1, 1],
           [1, 0, 0],
           [1, 1, 1],
           [1, 2, 4],
           [1, 3, 9],
           [1, 4, 16],
           [1, 5, 25]]
        = Inr [[11, 0, 110],
             [0, 110, 0],
             [110, 0, 1958]]"
    by code_simp
  show "invertMatrix
          [[11, 0, 110],
           [0, 110, 0],
           [110, 0, 1958]]
        = Inr [[89 / 429, 0, - 5 / 429],
             [0, 1 / 110, 0],
             [- 5 / 429, 0, 1 / 858]]"
    by code_simp
  show "multiplyMatrices
          [[89 / 429, 0, - 5 / 429],
           [0, 1 / 110, 0],
           [- 5 / 429, 0, 1 / 858]]
          [[1, 1, 1, 1, 1, 1, 1, 1, 1, 1, 1],
           [- 5, - 4, - 3, - 2, - 1, 0, 1, 2, 3, 4, 5],
           [25, 16, 9, 4, 1, 0, 1, 4, 9, 16, 25]]
        = Inr [[- 12 / 143, 3 / 143, 4 / 39, 23 / 143, 28 / 143, 89 / 429, 28 / 143, 23 / 143, 4 / 39, 3 / 143, - 12 / 143],
             [- 1 / 22, - 2 / 55, - 3 / 110, - 1 / 55, - 1 / 110, 0, 1 / 110, 1 / 55, 3 / 110, 2 / 55, 1 / 22],
             [5 / 286, 1 / 143, - 1 / 858, - 1 / 143, - 3 / 286, - 5 / 429, - 3 / 286, - 1 / 143, - 1 / 858, 1 / 143, 5 / 286]]"
    by code_simp
qed


lemma floor_halves: "\<lfloor>(3::real) / 2\<rfloor> = 1" "\<lfloor>(1::real) / 2\<rfloor> = 0"
  by (simp_all add: floor_eq_iff)

lemma norm_5_2: "normWindow 5 = 5" "normOrder 5 2 = 2"
  by (simp_all add: normWindow_def normOrder_def)


lemma smooth_ramp_body:
  "sgSmooth [1, 2, 3, 4, 5] 2 2 = Inr [41 / 35, 67 / 35, 3, 143 / 35, 169 / 35]"
proof -
  have "map (\<lambda>i. windowSum [1, 2, 3, 4, 5] [- 3 / 35, 12 / 35, 17 / 35, 12 / 35, - 3 / 35] 2 i)
          [0..<length [1, 2, 3, 4, 5 :: real]]
        = [41 / 35, 67 / 35, 3, 143 / 35, 169 / 35]"
    by code_simp
  then show ?thesis by (simp add: sgSmooth_def kernel_2_2)
qed

text \<open>
  C2, amended. With window size 5 and order 2 the input \<open>[1, 2, 3, 4, 5]\<close> is smoothed to
  \<open>[41/35, 67/35, 3, 143/35, 169/35]\<close>: only the output at index 2, whose window lies
  inside the input, equals the input; the outputs at the indices 0, 1, 3 and 4, whose
  windows are clamped at an edge, differ from it.
\<close>

theorem smooth_ramp_5_2:
  "savitzkyGolay [1, 2, 3, 4, 5] 5 2 = Inr [41 / 35, 67 / 35, 3, 143 / 35, 169 / 35]"
  by (simp add: savitzkyGolay_def norm_5_2 smooth_ramp_body)

text \<open>
  C2, as claimed: the output equals the input at every index. It fails at the clamped
  indices.
\<close>

theorem smooth_ramp_5_2_counterexample:
  "savitzkyGolay [1, 2, 3, 4, 5] 5 2 \<noteq> Inr [1, 2, 3, 4, 5]"
  by (simp add: savitzkyGolay_def norm_5_2 smooth_ramp_body)


subsection \<open>The degenerate matrix and the unnormalised derivative path\<close>

lemma sgSmooth_degenerate: "kernelDegenerate h p \<Longrightarrow> sgSmooth data h p = Inr data"
  by (simp add: sgSmooth_def kernelDegenerate_None)

lemma derivative_degenerate:
  "kernelDegenerate \<lfloor>w / 2\<rfloor> p \<Longrightarrow>
   calculateDerivativeSG ts signal w p = Inr (replicate (length signal) 0)"
  by (simp add: calculateDerivativeSG_def kernelDegenerate_None)

lemma derivative_3_2_total: "\<exists>r. calculateDerivativeSG ts signal 3 2 = Inr r"
  by (simp add: calculateDerivativeSG_def floor_halves kernel_1_2)

text \<open>
  C3. No exception ever escapes the smoothing path. When the inversion of the
  normal-equations matrix raises \<open>Matrix degenerate\<close>, the smoothing path returns the input
  sequence and the derivative path returns zeros of the length of the signal. With window
  size 3 and order 2 neither path raises.
\<close>

theorem degenerate_matrix_fallback:
  "(\<exists>r. savitzkyGolay data w p = Inr r) \<and>
   (kernelDegenerate half order \<longrightarrow> sgSmooth data half order = Inr data) \<and>
   (kernelDegenerate (normWindow w div 2) (real_of_int (normOrder w p)) \<longrightarrow>
      savitzkyGolay data w p = Inr data) \<and>
   (kernelDegenerate \<lfloor>w / 2\<rfloor> p \<longrightarrow>
      calculateDerivativeSG ts signal w p = Inr (replicate (length signal) 0)) \<and>
   (\<exists>r. savitzkyGolay data 3 2 = Inr r) \<and>
   (\<exists>r. calculateDerivativeSG ts signal 3 2 = Inr r)"
proof -
  have "kernelDegenerate (normWindow w div 2) (real_of_int (normOrder w p)) \<longrightarrow>
      savitzkyGolay data w p = Inr data"
    by (simp add: savitzkyGolay_def sgSmooth_degenerate)
  then show ?thesis
    using savitzkyGolay_total sgSmooth_degenerate derivative_degenerate derivative_3_2_total
    by blast
qed

lemma derivative_window_1:
  "calculateDerivativeSG [0, 1, 2] [1, 2, 3] 1 1 = Inr [0, 0, 0]"
  by (simp add: calculateDerivativeSG_def floor_halves
      kernelDegenerate_None [OF kernel_0_1_degenerate] numeral_3_eq_3)

theorem degenerate_matrix_fallback_witness:
  "kernelDegenerate 0 1 \<and> sgSmooth [1, 2, 3] 0 1 = Inr [1, 2, 3] \<and>
   kernelDegenerate \<lfloor>(1::real) / 2\<rfloor> 1 \<and>
   calculateDerivativeSG [0, 1, 2] [1, 2, 3] 1 1 = Inr (replicate (length [1, 2, 3 :: real]) 0)"
proof -
  have d: "kernelDegenerate 0 1" by (rule kernel_0_1_degenerate)
  have d': "kernelDegenerate \<lfloor>(1::real) / 2\<rfloor> 1" by (simp add: floor_halves d)
  from degenerate_matrix_fallback [of "[1, 2, 3]" 1 1 0 1 "[0, 1, 2]" "[1, 2, 3]"]
  have "sgSmooth [1, 2, 3] 0 1 = Inr [1, 2, 3]"
    "calculateDerivativeSG [0, 1, 2] [1, 2, 3] 1 1 = Inr (replicate (length [1, 2, 3 :: real]) 0)"
    using d d' by blast+
  then show ?thesis using d d' by blast
qed

lemma derivative_3_2_example:
  "calculateDerivativeSG [0, 1, 2] [0, 1, 2] 3 2 = Inr [1 / 2, 1, 1 / 2]"
proof -
  have "map (\<lambda>i. windowSum [0, 1, 2] [- 1 / 2, 0, 1 / 2] 1 i / ([0, 1, 2] ! 1 - [0, 1, 2] ! 0))
          [0..<length [0, 1, 2 :: real]] = [1 / 2, 1, 1 / 2]"
    by code_simp
  then show ?thesis
    by (simp add: calculateDerivativeSG_def floor_halves kernel_1_2)
qed

text \<open>
  C9. The smoothing path normalises its parameters: the window size becomes an odd
  integer of at least 3, the order an integer of at least 1 and below the window size,
  and no exception escapes. The derivative path does not: with order 0 the product has a
  single row, the derivative coefficients are undefined and reading them raises a
  TypeError; with order 3 and window size 3 the order is not reduced to 2, the matrix is
  singular and the result is all zeros, where order 2 gives the slopes.
\<close>

theorem derivative_path_not_normalised:
  "3 \<le> normWindow w \<and> odd (normWindow w) \<and> 1 \<le> normOrder w p \<and>
   normOrder w p < normWindow w \<and>
   (\<exists>r. savitzkyGolay data w p = Inr r) \<and>
   calculateDerivativeSG [0, 1, 2] [0, 1, 2] 3 0 = Inl TypeError \<and>
   calculateDerivativeSG [0, 1, 2] [0, 1, 2] 3 3 = Inr [0, 0, 0] \<and>
   calculateDerivativeSG [0, 1, 2] [0, 1, 2] 3 2 = Inr [1 / 2, 1, 1 / 2]"
proof -
  have "calculateDerivativeSG [0, 1, 2] [0, 1, 2] 3 0 = Inl TypeError"
    by (simp add: calculateDerivativeSG_def floor_halves kernel_1_0)
  moreover have "calculateDerivativeSG [0, 1, 2] [0, 1, 2] 3 3 = Inr [0, 0, 0]"
    by (simp add: calculateDerivativeSG_def floor_halves
        kernelDegenerate_None [OF kernel_1_3_degenerate] numeral_3_eq_3)
  ultimately show ?thesis
    using norm_bounds [of w p] savitzkyGolay_total [of data w p] derivative_3_2_example
    by simp
qed

subsection \<open>The step trace\<close>

lemma windowSum_clampIndex:
  "windowSum data coeffs h i
   = (\<Sum>j = - h..h. data ! clampIndex (length data) i j * coeffs ! nat (j + h))"
  unfolding clampIndex_def by (rule windowSum_sum)

lemma clampIndex_bounds:
  assumes "i < n" "- h \<le> j" "j \<le> h"
  shows "clampIndex n i j < n" "int (clampIndex n i j) \<le> int i + h"
    "int i - h \<le> int (clampIndex n i j)"
  using assms by (auto simp: clampIndex_def)

lemma windowSum_flat:
  assumes "0 \<le> h" "length coeffs = nat (2 * h + 1)"
    "\<And>j. - h \<le> j \<Longrightarrow> j \<le> h \<Longrightarrow> data ! clampIndex (length data) i j = v"
  shows "windowSum data coeffs h i = v * sum_list coeffs"
proof -
  have "windowSum data coeffs h i = (\<Sum>j = - h..h. v * coeffs ! nat (j + h))"
    unfolding windowSum_clampIndex
    by (rule sum.cong) (simp_all add: assms(3))
  also have "\<dots> = v * (\<Sum>j = - h..h. coeffs ! nat (j + h))"
    by (simp add: sum_distrib_left)
  finally show ?thesis using sum_window_coeffs [OF assms(1,2)] by simp
qed

lemma stepSignal_length: "length stepSignal = 10000"
  by (simp add: stepSignal_def)

lemma stepSignal_nth:
  assumes "i < 10000"
  shows "stepSignal ! i =
           (if i < 5000 then 0 else if i < 5020 then - real (i - 5000) / 20 else - 1)"
proof -
  consider "i < 5000" | "5000 \<le> i" "i < 5020" | "5020 \<le> i" by linarith
  then show ?thesis
  proof cases
    case 1
    then show ?thesis by (simp add: stepSignal_def nth_append)
  next
    case 2
    then have k: "i - 5000 < 20" by linarith
    have "stepSignal ! i = (map (\<lambda>k. - real k / 20) [0..<20] @ replicate 4980 (- 1)) ! (i - 5000)"
      using 2 by (simp add: stepSignal_def nth_append)
    also have "\<dots> = map (\<lambda>k. - real k / 20) [0..<20] ! (i - 5000)"
      using k by (simp add: nth_append)
    also have "\<dots> = - real ([0..<20] ! (i - 5000)) / 20"
      using k by (intro nth_map) simp
    also have "[0..<20] ! (i - 5000) = i - 5000"
      using k by (simp only: nth_upt add_0 )
    finally show ?thesis using 2 by (simp only: if_True if_False not_less) simp
  next
    case 3
    then have "i - 5000 - 20 < 4980" "\<not> i - 5000 < 20" "\<not> i < 5000" "\<not> i < 5020"
      using assms by simp_all
    then show ?thesis by (simp add: stepSignal_def nth_append)
  qed
qed

lemma sgCoeffs11_sum: "sum_list sgCoeffs11 = 1" "length sgCoeffs11 = nat (2 * 5 + 1)"
  by (simp_all add: sgCoeffs11_def)

lemma smooth_before_step:
  assumes "i < 4996"
  shows "windowSum stepSignal sgCoeffs11 5 i = 0"
proof -
  have "windowSum stepSignal sgCoeffs11 5 i = 0 * sum_list sgCoeffs11"
  proof (rule windowSum_flat)
    fix j :: int assume j: "- 5 \<le> j" "j \<le> 5"
    have i: "i < 10000" using assms by simp
    have "int (clampIndex 10000 i j) \<le> int i + 5"
      by (rule clampIndex_bounds(2) [OF i j])
    then have le: "clampIndex 10000 i j \<le> 5000" using assms by linarith
    have lt: "clampIndex 10000 i j < 10000" by (rule clampIndex_bounds(1) [OF i j])
    show "stepSignal ! clampIndex (length stepSignal) i j = 0"
      using le by (simp add: stepSignal_length stepSignal_nth [OF lt])
  qed (simp_all add: sgCoeffs11_sum)
  then show ?thesis by simp
qed

lemma smooth_after_step:
  assumes "5025 \<le> i" "i < 10000"
  shows "windowSum stepSignal sgCoeffs11 5 i = - 1"
proof -
  have "windowSum stepSignal sgCoeffs11 5 i = - 1 * sum_list sgCoeffs11"
  proof (rule windowSum_flat)
    fix j :: int assume j: "- 5 \<le> j" "j \<le> 5"
    have "int i - 5 \<le> int (clampIndex 10000 i j)"
      by (rule clampIndex_bounds(3) [OF assms(2) j])
    then have ge: "5020 \<le> clampIndex 10000 i j" using assms by linarith
    have lt: "clampIndex 10000 i j < 10000" by (rule clampIndex_bounds(1) [OF assms(2) j])
    show "stepSignal ! clampIndex (length stepSignal) i j = - 1"
      using ge by (simp add: stepSignal_length stepSignal_nth [OF lt])
  qed (simp_all add: sgCoeffs11_sum)
  then show ?thesis by (simp add: sgCoeffs11_sum)
qed

lemma windowSum_interior5:
  assumes "5 \<le> i" "i + 5 < length data"
  shows "windowSum data cs 5 i =
           data ! (i - 5) * cs ! 0 + data ! (i - 4) * cs ! 1 + data ! (i - 3) * cs ! 2
           + data ! (i - 2) * cs ! 3 + data ! (i - 1) * cs ! 4 + data ! i * cs ! 5
           + data ! (i + 1) * cs ! 6 + data ! (i + 2) * cs ! 7 + data ! (i + 3) * cs ! 8
           + data ! (i + 4) * cs ! 9 + data ! (i + 5) * cs ! 10"
proof -
  have n: "nat (int i - 5) = i - 5" "nat (int i - 4) = i - 4" "nat (int i - 3) = i - 3"
    "nat (int i - 2) = i - 2" "nat (int i - 1) = i - 1"
    "nat (int i + 1) = i + 1" "nat (int i + 2) = i + 2" "nat (int i + 3) = i + 3"
    "nat (int i + 4) = i + 4" "nat (int i + 5) = i + 5"
    using assms by simp_all
  have "[- 5..5] = [- 5, - 4, - 3, - 2, - 1, 0, 1, 2, 3, 4, 5 :: int]"
    by (simp add: upto_rec1)
  then show ?thesis
    unfolding windowSum_def Let_def using assms by (simp add: n)
qed

lemma smooth_values:
  "windowSum stepSignal sgCoeffs11 5 4996 = 3 / 715"
  "windowSum stepSignal sgCoeffs11 5 4997 = 21 / 2860"
  "windowSum stepSignal sgCoeffs11 5 4998 = 23 / 4290"
  "windowSum stepSignal sgCoeffs11 5 4999 = - 2 / 429"
  "windowSum stepSignal sgCoeffs11 5 5000 = - 7 / 286"
  "windowSum stepSignal sgCoeffs11 5 5001 = - 469 / 8580"
  "windowSum stepSignal sgCoeffs11 5 5002 = - 203 / 2145"
  "windowSum stepSignal sgCoeffs11 5 5003 = - 102 / 715"
  "windowSum stepSignal sgCoeffs11 5 5004 = - 28 / 143"
  "windowSum stepSignal sgCoeffs11 5 5005 = - 1 / 4"
  "windowSum stepSignal sgCoeffs11 5 5006 = - 3 / 10"
  "windowSum stepSignal sgCoeffs11 5 5007 = - 7 / 20"
  "windowSum stepSignal sgCoeffs11 5 5008 = - 2 / 5"
  "windowSum stepSignal sgCoeffs11 5 5009 = - 9 / 20"
  "windowSum stepSignal sgCoeffs11 5 5010 = - 1 / 2"
  "windowSum stepSignal sgCoeffs11 5 5011 = - 11 / 20"
  "windowSum stepSignal sgCoeffs11 5 5012 = - 3 / 5"
  "windowSum stepSignal sgCoeffs11 5 5013 = - 13 / 20"
  "windowSum stepSignal sgCoeffs11 5 5014 = - 7 / 10"
  "windowSum stepSignal sgCoeffs11 5 5015 = - 3 / 4"
  "windowSum stepSignal sgCoeffs11 5 5016 = - 115 / 143"
  "windowSum stepSignal sgCoeffs11 5 5017 = - 613 / 715"
  "windowSum stepSignal sgCoeffs11 5 5018 = - 1942 / 2145"
  "windowSum stepSignal sgCoeffs11 5 5019 = - 8111 / 8580"
  "windowSum stepSignal sgCoeffs11 5 5020 = - 279 / 286"
  "windowSum stepSignal sgCoeffs11 5 5021 = - 427 / 429"
  "windowSum stepSignal sgCoeffs11 5 5022 = - 4313 / 4290"
  "windowSum stepSignal sgCoeffs11 5 5023 = - 2881 / 2860"
  "windowSum stepSignal sgCoeffs11 5 5024 = - 718 / 715"
  by (simp_all add: windowSum_interior5 stepSignal_length stepSignal_nth sgCoeffs11_def)

lemma upt_step_middle:
  "[4996..<5025] =
       [4996, 4997, 4998, 4999, 5000, 5001, 5002, 5003, 5004, 5005,
        5006, 5007, 5008, 5009, 5010, 5011, 5012, 5013, 5014, 5015,
        5016, 5017, 5018, 5019, 5020, 5021, 5022, 5023, 5024]"
  by (simp add: upt_conv_Cons)

lemma smooth_step_map:
  "map (windowSum stepSignal sgCoeffs11 5) [0..<10000] = stepSmooth"
proof -
  have split: "[0..<10000] = [0..<4996] @ [4996..<5025] @ [5025..<10000]"
    using upt_add_eq_append [of 0 4996 5004] upt_add_eq_append [of 4996 5025 4975]
    by (simp del: upt_rec_numeral)
  have l: "map (windowSum stepSignal sgCoeffs11 5) [0..<4996] = replicate 4996 0"
  proof -
    have "map (windowSum stepSignal sgCoeffs11 5) [0..<4996] = map (\<lambda>i. 0) [0..<4996]"
      by (rule map_cong [OF refl]) (simp del: upt_rec_numeral add: smooth_before_step)
    then show ?thesis by (simp del: upt_rec_numeral add: map_replicate_const)
  qed
  have r: "map (windowSum stepSignal sgCoeffs11 5) [5025..<10000] = replicate 4975 (- 1)"
  proof -
    have "map (windowSum stepSignal sgCoeffs11 5) [5025..<10000] = map (\<lambda>i. - 1) [5025..<10000]"
      by (rule map_cong [OF refl]) (simp del: upt_rec_numeral add: smooth_after_step)
    then show ?thesis by (simp del: upt_rec_numeral add: map_replicate_const)
  qed
  have m: "map (windowSum stepSignal sgCoeffs11 5) [4996..<5025] =
       [3 / 715, 21 / 2860, 23 / 4290, - 2 / 429, - 7 / 286, - 469 / 8580, - 203 / 2145, - 102 / 715,
        - 28 / 143, - 1 / 4, - 3 / 10, - 7 / 20, - 2 / 5, - 9 / 20, - 1 / 2, - 11 / 20,
        - 3 / 5, - 13 / 20, - 7 / 10, - 3 / 4, - 115 / 143, - 613 / 715, - 1942 / 2145, - 8111 / 8580,
        - 279 / 286, - 427 / 429, - 4313 / 4290, - 2881 / 2860, - 718 / 715]"
    unfolding upt_step_middle by (simp add: smooth_values)
  show ?thesis
    unfolding split map_append l r m stepSmooth_def ..
qed

lemma smooth_step: "savitzkyGolay stepSignal 11 2 = Inr stepSmooth"
proof -
  have ne: "stepSignal \<noteq> []" using stepSignal_length by auto
  have n: "normWindow 11 div 2 = 5" "real_of_int (normOrder 11 2) = 2"
    by (simp_all add: normWindow_def normOrder_def)
  have k: "filterKernel 5 2 = Inr (Some (sgCoeffs11 #
             [[- 1 / 22, - 2 / 55, - 3 / 110, - 1 / 55, - 1 / 110, 0,
               1 / 110, 1 / 55, 3 / 110, 2 / 55, 1 / 22],
              [5 / 286, 1 / 143, - 1 / 858, - 1 / 143, - 3 / 286, - 5 / 429,
               - 3 / 286, - 1 / 143, - 1 / 858, 1 / 143, 5 / 286]]))"
    unfolding sgCoeffs11_def by (rule kernel_5_2)
  have "sgSmooth stepSignal 5 2 = Inr (map (windowSum stepSignal sgCoeffs11 5) [0..<10000])"
    unfolding sgSmooth_def k stepSignal_length by (simp del: upt_rec_numeral)
  then show ?thesis
    unfolding savitzkyGolay_def n smooth_step_map using ne by (simp del: upt_rec_numeral)
qed

lemma stepSmooth_length: "length stepSmooth = 10000"
  by (simp add: stepSmooth_def)

lemma foldl_plus_zeros: "foldl (+) (0::real) (replicate n 0) = 0"
  by (induction n) simp_all

lemma foldl_min_replicate:
  "foldl min (b::real) (replicate n v) = (if n = 0 then b else min b v)"
  by (induction n arbitrary: b) (auto simp: min_def)

lemma firstAtOrBelow_skip:
  "\<not> v \<le> thr \<Longrightarrow>
   firstAtOrBelow (replicate n v @ rest) thr i = firstAtOrBelow rest thr (i + n)"
  by (induction n arbitrary: i) simp_all

lemma step_headCount: "nat (max 20 \<lfloor>real (length stepSmooth) * 0.05\<rfloor>) = 500"
  by (simp add: stepSmooth_length)

lemma step_baseline: "foldl (+) 0 (take 500 stepSmooth) / real 500 = 0"
  by (simp add: stepSmooth_def foldl_plus_zeros)

lemma step_minVal: "foldl min 0 stepSmooth = - 2881 / 2860"
  by (simp add: stepSmooth_def foldl_min_replicate)

lemma step_first: "firstAtOrBelow stepSmooth (- 8643 / 57200) 0 = Some 5004"
  by (simp add: stepSmooth_def firstAtOrBelow_skip)

lemma stepTime_nth: "i < 10000 \<Longrightarrow> stepTime t0 dt ! i = t0 + real i * dt"
  by (simp del: upt_rec_numeral add: stepTime_def)

lemma stepTime_length: "length (stepTime t0 dt) = 10000"
  by (simp del: upt_rec_numeral add: stepTime_def)

lemma step_hint:
  assumes "0 < dt"
  shows "hintAt (stepTime t0 dt) 10000 5004 = \<lparr>time = t0 + 5004 * dt, window = 400 * dt\<rparr>"
proof -
  have w: "nat (max 20 \<lfloor>real (10000::nat) * 0.02\<rfloor>) = 200" by simp
  have l: "nat (max 0 (int (5004::nat) - int (200::nat))) = 4804" by simp
  have r: "min (10000 - 1) (5004 + 200) = (5204::nat)" by simp
  have "stepTime t0 dt ! 5204 - stepTime t0 dt ! 4804 = 400 * dt"
    by (simp add: stepTime_nth algebra_simps)
  then show ?thesis
    unfolding hintAt_def Let_def w l r using assms by (simp add: stepTime_nth)
qed

lemma step_jump:
  assumes "0 < dt"
  shows "findLargestJumpStart (stepTime t0 dt) stepSignal
         = Inr (Some \<lparr>time = t0 + 5004 * dt, window = 400 * dt\<rparr>)"
proof -
  have amp: "(0::real) - (- 2881 / 2860) > 0" by simp
  have thr: "(0::real) - (0 - (- 2881 / 2860)) * 0.15 = - 8643 / 57200" by simp
  show ?thesis
    unfolding findLargestJumpStart_def stepTime_length stepSignal_length smooth_step
      sum.case Let_def step_headCount step_baseline step_minVal
    using amp by (simp only: thr step_first if_True option.case step_hint [OF assms]) simp
qed

text \<open>
  C8, amended. On the step trace with any positive sample spacing, \<open>findLargestJumpStart\<close>
  returns a hint: its time is the time at index 5004, the first sample at which the
  smoothed signal has fallen by 15 percent of the amplitude, which is four sample
  spacings after the time at index 5000; its window is 400 sample spacings, which is
  positive.
\<close>

theorem step_trace_focus:
  assumes "0 < dt"
  shows "findLargestJumpStart (stepTime t0 dt) stepSignal
           = Inr (Some \<lparr>time = stepTime t0 dt ! 5004, window = 400 * dt\<rparr>) \<and>
         stepTime t0 dt ! 5004 - stepTime t0 dt ! 5000 = 4 * dt \<and>
         0 < 400 * dt"
  using assms step_jump [OF assms, of t0] by (simp add: stepTime_nth)

theorem step_trace_focus_witness:
  "(0::real) < 1 \<and>
   findLargestJumpStart (stepTime 0 1) stepSignal
     = Inr (Some \<lparr>time = stepTime 0 1 ! 5004, window = 400 * 1\<rparr>) \<and>
   stepTime 0 1 ! 5004 - stepTime 0 1 ! 5000 = 4 * 1"
proof -
  have h: "(0::real) < 1" by simp
  from step_trace_focus [OF h, of 0] show ?thesis by simp
qed

text \<open>
  C8, as claimed: the time of the hint lies within one sample spacing of the time at
  index 5000. It fails: with spacing 1 the hint is at time 5004.
\<close>

theorem step_trace_focus_counterexample:
  "findLargestJumpStart (stepTime 0 1) stepSignal
     = Inr (Some \<lparr>time = 5004, window = 400\<rparr>) \<and>
   \<not> \<bar>5004 - stepTime 0 1 ! 5000\<bar> \<le> (1::real)"
proof -
  have "(0::real) < 1" by simp
  from step_jump [OF this, of 0] show ?thesis by (simp add: stepTime_nth)
qed

end
